theory Spec2Isabelle
  imports Main "HOL-Library.Word"
begin

unbundle bit_operations_syntax

section \<open>Machine types\<close>

text \<open>
  \<open>Builder::size()\<close> returns a \<open>uint32_t\<close>. \<open>osmium::memory::item_size_type\<close> is
  declared in \<open>osmium/memory/item.hpp\<close>, which is not part of the sources at hand; it
  is the unsigned 32-bit type of the size that \<open>size()\<close> returns. Arithmetic on both
  wraps modulo \<open>2 ^ 32\<close>. Addresses, offsets and \<open>std::size_t\<close> counts are natural
  numbers.
\<close>

type_synonym byte = "8 word"
type_synonym item_size_type = "32 word"

section \<open>The arena: \<open>osmium::memory::Buffer\<close>\<close>

text \<open>
  Modelled from the spec: \<open>osmium/memory/buffer.hpp\<close> is not part of the sources at
  hand, so the Buffer follows the Arena contract of the specification (sections 3 and
  4.1): contiguous byte storage at a base address that changes when the storage grows,
  a committed and a written offset, and the counter of open builders.
  \<open>m_memory\<close> holds the bytes at offsets \<open>0 ..< written\<close> of the storage;
  \<open>m_capacity\<close> is the size of the storage and \<open>m_spare\<close> the address the allocator
  hands out at the next growth (any address: the theorems hold for every value).
  \<open>m_stale\<close> gives, for every address, the byte that lies there as long as nothing
  has been written to it: the arena does not initialise the storage it hands out, and
  the theorems hold for every content.
\<close>

record buffer =
  m_data :: nat
  m_capacity :: nat
  m_memory :: "byte list"
  m_committed :: nat
  m_builder_count :: nat
  m_spare :: nat
  m_stale :: "nat \<Rightarrow> byte"

definition data :: "buffer \<Rightarrow> nat" where
  "data buf = m_data buf"

definition written :: "buffer \<Rightarrow> nat" where
  "written buf = length (m_memory buf)"

definition committed :: "buffer \<Rightarrow> nat" where
  "committed buf = m_committed buf"

definition builder_count :: "buffer \<Rightarrow> nat" where
  "builder_count buf = m_builder_count buf"

text \<open>
  Modelled from the spec: \<open>osmium::memory::align_bytes\<close> (declared in
  \<open>osmium/memory/item.hpp\<close>, not at hand); the alignment boundary of the
  specification's examples is 8.
\<close>

definition align_bytes :: nat where
  "align_bytes = 8"

text \<open>
  Modelled from the spec: \<open>is_aligned()\<close> tells whether the tail currently sits on the
  alignment boundary.
\<close>

definition is_aligned :: "buffer \<Rightarrow> bool" where
  "is_aligned buf = (written buf mod align_bytes = 0)"

text \<open>
  Modelled from the spec: \<open>reserve(n)\<close> returns a writable region of \<open>n\<close> bytes at the
  current tail, growing and relocating the storage as needed. The result is the address
  of the region and the new buffer. The reserved bytes are not initialised by the
  arena: they hold what lay at their addresses before (\<open>fresh_storage\<close>). A growth at
  least doubles the capacity, moves the storage to the spare address and keeps every
  byte written so far at its offset.
\<close>

definition buffer_grow :: "nat \<Rightarrow> buffer \<Rightarrow> buffer" where
  "buffer_grow needed buf =
     buf\<lparr>m_data := m_spare buf,
         m_capacity := max (2 * m_capacity buf) needed,
         m_spare := m_spare buf + max (2 * m_capacity buf) needed\<rparr>"

definition stale_bytes :: "buffer \<Rightarrow> nat \<Rightarrow> nat \<Rightarrow> byte list" where
  "stale_bytes buf addr n = map (m_stale buf) [addr ..< addr + n]"

definition buffer_reserve_space :: "nat \<Rightarrow> buffer \<Rightarrow> nat \<times> buffer" where
  "buffer_reserve_space n buf =
     (let buf1 = (if written buf + n > m_capacity buf then buffer_grow (written buf + n) buf else buf)
      in (m_data buf1 + written buf1,
          buf1\<lparr>m_memory := m_memory buf1 @ stale_bytes buf1 (m_data buf1 + written buf1) n\<rparr>))"

text \<open>The content of the \<open>n\<close> bytes that \<open>reserve(n)\<close> hands out.\<close>

definition fresh_storage :: "nat \<Rightarrow> buffer \<Rightarrow> byte list" where
  "fresh_storage n buf =
     (let buf1 = (if written buf + n > m_capacity buf then buffer_grow (written buf + n) buf else buf)
      in stale_bytes buf1 (m_data buf1 + written buf1) n)"

text \<open>
  Writing through a pointer into the arena: \<open>std::copy_n(src, n, target)\<close>,
  \<open>std::fill_n(target, n, 0)\<close> and \<open>target[k] = c\<close>. The pointer is an address; a byte
  at address \<open>a\<close> is the byte at offset \<open>a - m_data\<close> of the storage. Writes outside the
  bytes handed out so far are undefined behaviour in the source and have no effect in
  the model.
\<close>

fun poke :: "nat \<Rightarrow> byte list \<Rightarrow> byte list \<Rightarrow> byte list" where
  "poke off [] mem = mem"
| "poke off (x # xs) mem = poke (Suc off) xs (mem[off := x])"

definition copy_n :: "byte list \<Rightarrow> nat \<Rightarrow> nat \<Rightarrow> buffer \<Rightarrow> buffer" where
  "copy_n src n target buf =
     buf\<lparr>m_memory := poke (target - m_data buf) (take n src) (m_memory buf)\<rparr>"

definition store_byte :: "nat \<Rightarrow> byte \<Rightarrow> buffer \<Rightarrow> buffer" where
  "store_byte target c buf =
     buf\<lparr>m_memory := poke (target - m_data buf) [c] (m_memory buf)\<rparr>"

definition fill_n :: "nat \<Rightarrow> nat \<Rightarrow> byte \<Rightarrow> buffer \<Rightarrow> buffer" where
  "fill_n target n c buf =
     buf\<lparr>m_memory := poke (target - m_data buf) (replicate n c) (m_memory buf)\<rparr>"

definition increment_builder_count :: "buffer \<Rightarrow> buffer" where
  "increment_builder_count buf = buf\<lparr>m_builder_count := m_builder_count buf + 1\<rparr>"

definition decrement_builder_count :: "buffer \<Rightarrow> buffer" where
  "decrement_builder_count buf = buf\<lparr>m_builder_count := m_builder_count buf - 1\<rparr>"

section \<open>The record header: \<open>osmium::memory::Item\<close>\<close>

text \<open>
  Modelled from the spec: \<open>osmium/memory/item.hpp\<close> is not at hand. The record header
  is a fixed-layout prefix of a record that holds the running byte size; \<open>size()\<close>
  reads the field and \<open>grow(delta)\<close> adds \<open>delta\<close> to it. The field is taken to be the
  first four bytes of the record, least significant byte first.
\<close>

definition le_bytes :: "item_size_type \<Rightarrow> byte list" where
  "le_bytes w = [ucast w, ucast (drop_bit 8 w), ucast (drop_bit 16 w), ucast (drop_bit 24 w)]"

fun le_word :: "byte list \<Rightarrow> item_size_type" where
  "le_word [] = 0"
| "le_word (b # bs) = ucast b OR push_bit 8 (le_word bs)"

definition load32 :: "nat \<Rightarrow> byte list \<Rightarrow> item_size_type" where
  "load32 off mem = le_word (take 4 (drop off mem))"

definition store32 :: "nat \<Rightarrow> item_size_type \<Rightarrow> byte list \<Rightarrow> byte list" where
  "store32 off w mem = poke off (le_bytes w) mem"

definition item_byte_size :: "nat \<Rightarrow> buffer \<Rightarrow> item_size_type" where
  "item_byte_size pos buf = load32 (pos - m_data buf) (m_memory buf)"

definition item_add_size :: "nat \<Rightarrow> item_size_type \<Rightarrow> buffer \<Rightarrow> buffer" where
  "item_add_size pos sz buf =
     buf\<lparr>m_memory := store32 (pos - m_data buf) (item_byte_size pos buf + sz) (m_memory buf)\<rparr>"

text \<open>
  Modelled from the spec: the padded size of a finished record is its size rounded up
  to the alignment boundary, and \<open>append_record\<close> copies the bytes of a finished record
  to the tail. A finished record is given by the bytes at its address.
\<close>

definition padded_length :: "item_size_type \<Rightarrow> item_size_type" where
  "padded_length len = (len + of_nat (align_bytes - 1)) AND NOT (of_nat (align_bytes - 1))"

definition padded_size :: "byte list \<Rightarrow> item_size_type" where
  "padded_size item = padded_length (load32 0 item)"

definition buffer_add_item :: "byte list \<Rightarrow> buffer \<Rightarrow> buffer" where
  "buffer_add_item item buf =
     (let (target, buf1) = buffer_reserve_space (unat (padded_size item)) buf
      in copy_n item (unat (padded_size item)) target buf1)"

section \<open>\<open>osmium::builder::Builder\<close>\<close>

text \<open>
  A Builder holds a reference to the buffer, the pointer to its parent and the offset of
  its record. The fields never change after construction, so a Builder is a value that
  contains its parent; the buffer is the state every member function reads and returns.
  \<open>size_b\<close> is \<open>Builder::size\<close>, \<open>append_b\<close> is \<open>Builder::append(data, length)\<close> and
  \<open>append_str\<close> is \<open>Builder::append(str)\<close>.
\<close>

datatype builder = Builder (m_parent: "builder option") (m_item_offset: nat)

datatype assertion_failure =
    Buffer_not_aligned
  | Only_one_sub_builder_can_be_open
  | Only_one_builder_can_be_open
  | Parent_size_not_aligned

definition item_pos :: "builder \<Rightarrow> buffer \<Rightarrow> nat" where
  "item_pos b buf = data buf + committed buf + m_item_offset b"

definition reserve_space :: "nat \<Rightarrow> buffer \<Rightarrow> nat \<times> buffer" where
  "reserve_space n buf = buffer_reserve_space n buf"

fun add_size :: "builder \<Rightarrow> item_size_type \<Rightarrow> buffer \<Rightarrow> buffer" where
  "add_size (Builder parent off) sz buf =
     (let buf1 = item_add_size (item_pos (Builder parent off) buf) sz buf
      in case parent of
           Some p \<Rightarrow> add_size p sz buf1
         | None \<Rightarrow> buf1)"

definition size_b :: "builder \<Rightarrow> buffer \<Rightarrow> item_size_type" where
  "size_b b buf = item_byte_size (item_pos b buf) buf"

text \<open>
  \<open>add_padding\<close>: the padding is computed in \<open>std::size_t\<close> and lies in \<open>1 .. 8\<close>, so
  the cast to \<open>item_size_type\<close> keeps its value. \<open>debug\<close> is true in an instrumented
  build (without \<open>NDEBUG\<close>), where the assertion on the parent's size is checked; a
  failed assertion ends the program: the result is \<open>Inl\<close>.
\<close>

definition add_padding :: "bool \<Rightarrow> builder \<Rightarrow> bool \<Rightarrow> buffer \<Rightarrow> assertion_failure + buffer" where
  "add_padding debug b self buf =
     (let padding = align_bytes - (unat (size_b b buf) mod align_bytes) in
      if padding \<noteq> align_bytes then
        (let (target, buf1) = reserve_space padding buf;
             buf2 = fill_n target padding 0 buf1
         in if self then Inr (add_size b (of_nat padding) buf2)
            else (case m_parent b of
                    Some p \<Rightarrow>
                      (let buf3 = add_size p (of_nat padding) buf2
                       in if debug \<and> unat (size_b p buf3) mod align_bytes \<noteq> 0
                          then Inl Parent_size_not_aligned
                          else Inr buf3)
                  | None \<Rightarrow> Inr buf2))
      else Inr buf)"

definition append_b :: "builder \<Rightarrow> byte list \<Rightarrow> item_size_type \<Rightarrow> buffer \<Rightarrow> item_size_type \<times> buffer" where
  "append_b b src len buf =
     (let (target, buf1) = reserve_space (unat len) buf
      in (len, copy_n src (unat len) target buf1))"

definition append_with_zero :: "builder \<Rightarrow> byte list \<Rightarrow> item_size_type \<Rightarrow> buffer \<Rightarrow> item_size_type \<times> buffer" where
  "append_with_zero b src len buf =
     (let (target, buf1) = reserve_space (unat (len + 1)) buf;
          buf2 = copy_n src (unat len) target buf1
      in (len + 1, store_byte (target + unat len) 0 buf2))"

text \<open>
  A \<open>const char*\<close> argument is the bytes at that address; \<open>strlen\<close> counts up to the
  first zero byte.
\<close>

definition strlen :: "byte list \<Rightarrow> nat" where
  "strlen s = length (takeWhile (\<lambda>c. c \<noteq> 0) s)"

definition append_str :: "builder \<Rightarrow> byte list \<Rightarrow> buffer \<Rightarrow> item_size_type \<times> buffer" where
  "append_str b str buf = append_b b str (of_nat (strlen str + 1)) buf"

definition add_item :: "builder \<Rightarrow> byte list \<Rightarrow> buffer \<Rightarrow> buffer" where
  "add_item b item buf = add_size b (padded_size item) (buffer_add_item item buf)"

text \<open>
  The constructor. \<open>debug\<close> is true in an instrumented build (without \<open>NDEBUG\<close>), where
  the assertions are checked and the counter of open builders is kept. A failed
  assertion ends the program: the result is \<open>Inl\<close>. The arena keeps
  \<open>committed \<le> written\<close>, so the subtraction that gives the offset does not wrap around.
\<close>

definition Builder_ctor ::
  "bool \<Rightarrow> buffer \<Rightarrow> builder option \<Rightarrow> item_size_type \<Rightarrow> assertion_failure + builder \<times> buffer" where
  "Builder_ctor debug buf parent sz =
     (let this = Builder parent (written buf - committed buf);
          buf1 = snd (reserve_space (unat sz) buf)
      in if debug \<and> \<not> is_aligned buf1 then Inl Buffer_not_aligned
         else (case parent of
                 Some p \<Rightarrow>
                   if debug \<and> builder_count buf1 \<noteq> 1 then Inl Only_one_sub_builder_can_be_open
                   else Inr (this, (if debug then increment_builder_count else id) (add_size p sz buf1))
               | None \<Rightarrow>
                   if debug \<and> builder_count buf1 \<noteq> 0 then Inl Only_one_builder_can_be_open
                   else Inr (this, (if debug then increment_builder_count else id) buf1)))"

definition Builder_dtor :: "bool \<Rightarrow> builder \<Rightarrow> buffer \<Rightarrow> buffer" where
  "Builder_dtor debug b buf = (if debug then decrement_builder_count buf else buf)"

section \<open>Well-formed builder chains\<close>

text \<open>
  The ancestors of a Builder, nearest first, and the chain that \<open>add_size\<close> walks.
\<close>

fun ancestors :: "builder \<Rightarrow> builder list" where
  "ancestors (Builder parent off) = (case parent of None \<Rightarrow> [] | Some p \<Rightarrow> p # ancestors p)"

definition chain :: "builder \<Rightarrow> builder list" where
  "chain b = b # ancestors b"

text \<open>The offset of a Builder's record, and so of its size field, in the storage.\<close>

definition header_offset :: "buffer \<Rightarrow> builder \<Rightarrow> nat" where
  "header_offset buf b = m_committed buf + m_item_offset b"

text \<open>
  The size fields of a chain are usable when each lies inside the bytes written so far
  and no two of them overlap. The constructor gives this to every Builder whose header
  has room for the size field (\<open>Builder_ctor_chain_ok\<close> below).
\<close>

fun separated :: "nat list \<Rightarrow> bool" where
  "separated [] = True"
| "separated (x # xs) = ((\<forall>y \<in> set xs. x + 4 \<le> y \<or> y + 4 \<le> x) \<and> separated xs)"

definition chain_ok :: "buffer \<Rightarrow> builder \<Rightarrow> bool" where
  "chain_ok buf b =
     ((\<forall>a \<in> set (chain b). header_offset buf a + 4 \<le> written buf) \<and>
      separated (map m_item_offset (chain b)))"

section \<open>Concrete builders\<close>

text \<open>
  Modelled from the spec: the Builder base class reserves the header but does not
  write it; the concrete builder (not at hand) constructs the record header in place,
  after which the size field holds the header size.
\<close>

definition init_header :: "builder \<Rightarrow> item_size_type \<Rightarrow> buffer \<Rightarrow> buffer" where
  "init_header b sz buf =
     buf\<lparr>m_memory := store32 (item_pos b buf - m_data buf) sz (m_memory buf)\<rparr>"

text \<open>
  Two arenas for evaluating the model: an empty one with room for 16 bytes, and one
  that holds a top-level record of size 24 whose last 8 bytes are the header of an open
  sub-record. Their unwritten storage holds the byte \<open>0xCC\<close> everywhere.
\<close>

definition fresh_buffer :: buffer where
  "fresh_buffer =
     \<lparr>m_data = 4096, m_capacity = 16, m_memory = [], m_committed = 0,
      m_builder_count = 0, m_spare = 8192,
      m_stale = (\<lambda>addr. 204)\<rparr>"

definition two_level_buffer :: buffer where
  "two_level_buffer =
     \<lparr>m_data = 4096, m_capacity = 64,
      m_memory = [24, 0, 0, 0, 0, 0, 0, 0, 0, 0, 0, 0, 0, 0, 0, 0, 8, 0, 0, 0, 0, 0, 0, 0],
      m_committed = 0, m_builder_count = 2, m_spare = 8192,
      m_stale = (\<lambda>addr. 204)\<rparr>"

definition top_builder :: builder where
  "top_builder = Builder None 0"

definition sub_builder :: builder where
  "sub_builder = Builder (Some top_builder) 16"

section \<open>Sequences of append calls\<close>

text \<open>
  A call of one of the three append functions, and a sequence of such calls on one
  Builder; the result is the total of the returned lengths (an \<open>item_size_type\<close>, as
  the caller adds them up) and the buffer.
\<close>

datatype append_call =
    Append "byte list" item_size_type
  | Append_with_zero "byte list" item_size_type
  | Append_str "byte list"

fun do_append :: "builder \<Rightarrow> append_call \<Rightarrow> buffer \<Rightarrow> item_size_type \<times> buffer" where
  "do_append b (Append src len) buf = append_b b src len buf"
| "do_append b (Append_with_zero src len) buf = append_with_zero b src len buf"
| "do_append b (Append_str str) buf = append_str b str buf"

fun append_all :: "builder \<Rightarrow> append_call list \<Rightarrow> buffer \<Rightarrow> item_size_type \<times> buffer" where
  "append_all b [] buf = (0, buf)"
| "append_all b (c # cs) buf =
     (let (n, buf1) = do_append b c buf;
          (m, buf2) = append_all b cs buf1
      in (n + m, buf2))"

definition three_appends :: "append_call list" where
  "three_appends = [Append [1, 2, 3] 3, Append_with_zero [4, 5] 2, Append_str [6, 7, 0, 9]]"

text \<open>A finished record of size 13, padded to 16 bytes.\<close>

definition finished_item :: "byte list" where
  "finished_item = [13, 0, 0, 0, 1, 2, 3, 4, 5, 6, 7, 8, 9, 0, 0, 0]"

section \<open>The nested padding scenario\<close>

text \<open>
  The scenario of the specification's section 8: on an open parent, a child with an
  8-byte header is opened and its header constructed; the child appends 10 bytes, calls
  \<open>add_size(10)\<close> and then \<open>add_padding(false)\<close>, and is destroyed. The result
  records the sizes that \<open>size()\<close> returns on the way.
\<close>

record scenario_sizes =
  parent_after_open :: item_size_type
  child_after_grow :: item_size_type
  parent_after_grow :: item_size_type
  padding_bytes :: nat
  child_after_pad :: item_size_type
  parent_after_pad :: item_size_type
  parent_after_destroy :: item_size_type

definition nested_padding_scenario ::
  "bool \<Rightarrow> builder \<Rightarrow> buffer \<Rightarrow> byte list \<Rightarrow> assertion_failure + scenario_sizes" where
  "nested_padding_scenario debug parent buf payload =
     (case Builder_ctor debug buf (Some parent) 8 of
        Inl e \<Rightarrow> Inl e
      | Inr (child, buf1) \<Rightarrow>
          (let buf2 = init_header child 8 buf1;
               (n, buf3) = append_b child payload 10 buf2;
               buf4 = add_size child n buf3
           in case add_padding debug child False buf4 of
                Inl e \<Rightarrow> Inl e
              | Inr buf5 \<Rightarrow>
                  (let buf6 = Builder_dtor debug child buf5
                   in Inr \<lparr>parent_after_open = size_b parent buf2,
                           child_after_grow = size_b child buf4,
                           parent_after_grow = size_b parent buf4,
                           padding_bytes = written buf5 - written buf4,
                           child_after_pad = size_b child buf5,
                           parent_after_pad = size_b parent buf5,
                           parent_after_destroy = size_b parent buf6\<rparr>)))"

text \<open>An arena with one open top-level Builder whose record holds its 16-byte header.\<close>

definition parent_open_buffer :: buffer where
  "parent_open_buffer =
     \<lparr>m_data = 4096, m_capacity = 16,
      m_memory = [16, 0, 0, 0, 0, 0, 0, 0, 0, 0, 0, 0, 0, 0, 0, 0],
      m_committed = 0, m_builder_count = 1, m_spare = 8192,
      m_stale = (\<lambda>addr. 204)\<rparr>"

section \<open>Resolving addresses\<close>

text \<open>
  The byte an address resolves to: the address has to lie in the bytes written so far
  of the current storage. An address into a storage the arena has left resolves to
  nothing.
\<close>

definition byte_at :: "buffer \<Rightarrow> nat \<Rightarrow> byte option" where
  "byte_at buf addr =
     (if data buf \<le> addr \<and> addr < data buf + written buf
      then Some (m_memory buf ! (addr - data buf))
      else None)"

section \<open>Programs over one arena\<close>

text \<open>
  A caller's operations on the Builders of one arena, run in order on the buffer and
  the list of Builders that are open. Using a Builder that is not open (it was never
  constructed, or is destroyed already) is not a run of any program: \<open>Not_open\<close>.
  A failed assertion ends the run.
\<close>

datatype action =
    Open "builder option" item_size_type
  | Close builder
  | Do_append builder append_call
  | Pad builder bool
  | Grow builder item_size_type
  | Attach builder "byte list"

datatype failure = Assertion assertion_failure | Not_open

fun step :: "bool \<Rightarrow> action \<Rightarrow> buffer \<times> builder list \<Rightarrow> failure + buffer \<times> builder list" where
  "step debug (Open parent sz) (buf, opn) =
     (if (case parent of None \<Rightarrow> False | Some p \<Rightarrow> p \<notin> set opn) then Inl Not_open
      else (case Builder_ctor debug buf parent sz of
              Inl e \<Rightarrow> Inl (Assertion e)
            | Inr (b, buf') \<Rightarrow> Inr (buf', b # opn)))"
| "step debug (Close b) (buf, opn) =
     (if b \<notin> set opn then Inl Not_open
      else Inr (Builder_dtor debug b buf, remove1 b opn))"
| "step debug (Do_append b call) (buf, opn) =
     (if b \<notin> set opn then Inl Not_open
      else Inr (snd (do_append b call buf), opn))"
| "step debug (Pad b self) (buf, opn) =
     (if b \<notin> set opn then Inl Not_open
      else (case add_padding debug b self buf of
              Inl e \<Rightarrow> Inl (Assertion e)
            | Inr buf' \<Rightarrow> Inr (buf', opn)))"
| "step debug (Grow b sz) (buf, opn) =
     (if b \<notin> set opn then Inl Not_open
      else Inr (add_size b sz buf, opn))"
| "step debug (Attach b item) (buf, opn) =
     (if b \<notin> set opn then Inl Not_open
      else Inr (add_item b item buf, opn))"

fun run :: "bool \<Rightarrow> action list \<Rightarrow> buffer \<times> builder list \<Rightarrow> failure + buffer \<times> builder list" where
  "run debug [] st = Inr st"
| "run debug (a # as) st =
     (case step debug a st of
        Inl e \<Rightarrow> Inl e
      | Inr st' \<Rightarrow> run debug as st')"

text \<open>
  Offset \<open>i\<close> of the storage lies in the size field of an open Builder or of one of its
  ancestors.
\<close>

definition in_size_field :: "buffer \<Rightarrow> builder list \<Rightarrow> nat \<Rightarrow> bool" where
  "in_size_field buf opn i =
     (\<exists>b \<in> set opn. \<exists>a \<in> set (chain b).
        header_offset buf a \<le> i \<and> i < header_offset buf a + 4)"

definition open_close_program :: "action list" where
  "open_close_program = [Open None 16, Open (Some top_builder) 8, Close sub_builder]"

definition append_program :: "action list" where
  "append_program =
     [Do_append sub_builder (Append [1, 2, 3] 3), Grow sub_builder 3,
      Attach sub_builder finished_item]"

text \<open>
  \<open>opens a\<close> tells whether the action constructs a Builder (and so reserves a header
  whose size field is written later); \<open>headers_written\<close> says that the size field of
  every open Builder and of its ancestors lies in the bytes written so far.
\<close>

fun opens :: "action \<Rightarrow> bool" where
  "opens (Open parent sz) = True"
| "opens a = False"

definition headers_written :: "buffer \<Rightarrow> builder list \<Rightarrow> bool" where
  "headers_written buf opn =
     (\<forall>b \<in> set opn. \<forall>a \<in> set (chain b). header_offset buf a + 4 \<le> written buf)"

section \<open>\<open>build_conninfo\<close> (command-line-parser.cpp)\<close>

text \<open>
  \<open>database_options_t\<close> is declared in \<open>options.hpp\<close>, which is not at hand; the record
  has the five \<open>std::string\<close> fields that \<open>build_conninfo\<close> and the option parser use.
  A \<open>std::string\<close> is a list of characters and may contain the character NUL.
\<close>

record database_options_t =
  db :: string
  username :: string
  host :: string
  password :: string
  port :: string

text \<open>
  \<open>c_str()\<close> passed to a C string function: the function sees the characters up to the
  first NUL. \<open>strncmp(a, b, n) == 0\<close> holds when the two C strings agree on their first
  \<open>n\<close> characters (or on all of them, when they end earlier), and \<open>strchr(s, c)\<close>, for
  a \<open>c\<close> other than NUL, is not null when \<open>c\<close> occurs in the C string.
\<close>

definition c_str :: "string \<Rightarrow> string" where
  "c_str s = takeWhile (\<lambda>c. c \<noteq> CHR 0x00) s"

definition strncmp_is_0 :: "string \<Rightarrow> string \<Rightarrow> nat \<Rightarrow> bool" where
  "strncmp_is_0 a b n = (take n a = take n b)"

definition strchr_found :: "string \<Rightarrow> char \<Rightarrow> bool" where
  "strchr_found s c = (c \<in> set s)"

definition compare_prefix :: "string \<Rightarrow> string \<Rightarrow> bool" where
  "compare_prefix str pre = strncmp_is_0 (c_str str) (c_str pre) (length pre)"

text \<open>
  Modelled from the spec: \<open>util::string_joiner_t\<close> (\<open>util.hpp\<close>, not at hand) joins the
  items added to it with the delimiter given to its constructor. \<open>add\<close> appends the item
  and the delimiter to the result; the call operator takes the last delimiter off.
\<close>

definition joiner_add :: "char \<Rightarrow> string \<Rightarrow> string \<Rightarrow> string" where
  "joiner_add delim item m_result = m_result @ item @ [delim]"

definition joiner_result :: "string \<Rightarrow> string" where
  "joiner_result m_result = butlast m_result"

text \<open>\<open>fmt::format("key='{}'", value)\<close>; \<open>CHR 0x27\<close> is the single quote.\<close>

definition format_entry :: "string \<Rightarrow> string \<Rightarrow> string" where
  "format_entry key v = key @ ''='' @ [CHR 0x27] @ v @ [CHR 0x27]"

definition fallback_application_name :: string where
  "fallback_application_name = format_entry ''fallback_application_name'' ''osm2pgsql''"

definition client_encoding :: string where
  "client_encoding = format_entry ''client_encoding'' ''UTF8''"

definition build_conninfo :: "database_options_t \<Rightarrow> string" where
  "build_conninfo opt =
     (if compare_prefix (db opt) ''postgresql://'' \<or> compare_prefix (db opt) ''postgres://''
      then db opt
      else
        (let joiner = joiner_add CHR '' '' fallback_application_name []
         in if strchr_found (c_str (db opt)) CHR ''=''
            then joiner_result (joiner_add CHR '' '' (db opt) joiner)
            else
              (let joiner = joiner_add CHR '' '' client_encoding joiner;
                   joiner = (if db opt \<noteq> [] then
                               joiner_add CHR '' '' (format_entry ''dbname'' (db opt)) joiner
                             else joiner);
                   joiner = (if username opt \<noteq> [] then
                               joiner_add CHR '' '' (format_entry ''user'' (username opt)) joiner
                             else joiner);
                   joiner = (if password opt \<noteq> [] then
                               joiner_add CHR '' '' (format_entry ''password'' (password opt)) joiner
                             else joiner);
                   joiner = (if host opt \<noteq> [] then
                               joiner_add CHR '' '' (format_entry ''host'' (host opt)) joiner
                             else joiner);
                   joiner = (if port opt \<noteq> [] then
                               joiner_add CHR '' '' (format_entry ''port'' (port opt)) joiner
                             else joiner)
               in joiner_result joiner)))"

text \<open>
  The connection string as the claim describes it: the URI unchanged; else, when the
  database string contains \<open>=\<close>, the fallback application name, a space and the
  string; else the space-joined list of the fallback application name, the client
  encoding and one entry for each non-empty field, in the order dbname, user, password,
  host, port. \<open>has_equals\<close> is the test for "contains \<open>=\<close>".
\<close>

fun space_join :: "string list \<Rightarrow> string" where
  "space_join [] = []"
| "space_join [x] = x"
| "space_join (x # y # ys) = x @ '' '' @ space_join (y # ys)"

definition conninfo_entries :: "database_options_t \<Rightarrow> (string \<times> string) list" where
  "conninfo_entries opt =
     [(''dbname'', db opt), (''user'', username opt), (''password'', password opt),
      (''host'', host opt), (''port'', port opt)]"

definition conninfo_described :: "(string \<Rightarrow> bool) \<Rightarrow> database_options_t \<Rightarrow> string" where
  "conninfo_described has_equals opt =
     (if take 13 (db opt) = ''postgresql://'' \<or> take 11 (db opt) = ''postgres://'' then db opt
      else if has_equals (db opt) then fallback_application_name @ '' '' @ db opt
      else space_join
             ([fallback_application_name, client_encoding] @
              map (\<lambda>(key, v). format_entry key v)
                (filter (\<lambda>(key, v). v \<noteq> []) (conninfo_entries opt))))"

definition uri_options :: database_options_t where
  "uri_options = \<lparr>db = ''postgres://h/osm'', username = ''u'', host = ''h'', password = [],
                   port = []\<rparr>"

definition keyword_options :: database_options_t where
  "keyword_options = \<lparr>db = ''dbname=osm'', username = ''u'', host = ''h'', password = [],
                       port = []\<rparr>"

definition plain_options :: database_options_t where
  "plain_options = \<lparr>db = ''osm'', username = ''u'', host = [], password = [],
                     port = ''5432''\<rparr>"


section \<open>Bytes and size fields\<close>

lemma le_word_le_bytes: "le_word (le_bytes w) = w"
  unfolding le_bytes_def
  apply simp
  apply (rule bit_word_eqI)
  subgoal for n
    apply (cases "n < 8"; cases "n < 16"; cases "n < 24")
    apply (auto simp add: bit_simps)
    done
  done

lemma length_le_bytes: "length (le_bytes w) = 4"
  by (simp add: le_bytes_def)

lemma length_poke: "length (poke off xs mem) = length mem"
  by (induction xs arbitrary: off mem) auto

lemma nth_poke_outside:
  "i < off \<or> off + length xs \<le> i \<Longrightarrow> poke off xs mem ! i = mem ! i"
  by (induction xs arbitrary: off mem) auto

lemma nth_poke_inside:
  "off + length xs \<le> length mem \<Longrightarrow> i < length xs \<Longrightarrow> poke off xs mem ! (off + i) = xs ! i"
proof (induction xs arbitrary: off mem i)
  case Nil
  then show ?case by simp
next
  case (Cons x xs)
  show ?case
  proof (cases i)
    case 0
    with Cons.prems show ?thesis by (simp add: nth_poke_outside)
  next
    case (Suc j)
    with Cons.prems Cons.IH [of "Suc off" "mem[off := x]" j] show ?thesis by simp
  qed
qed

lemma poke_eq:
  assumes "off + length xs \<le> length mem"
  shows "poke off xs mem = take off mem @ xs @ drop (off + length xs) mem"
proof (rule nth_equalityI)
  show "length (poke off xs mem) = length (take off mem @ xs @ drop (off + length xs) mem)"
    using assms by (simp add: length_poke)
next
  fix i
  assume "i < length (poke off xs mem)"
  then have i: "i < length mem" by (simp add: length_poke)
  consider "i < off" | "off \<le> i" "i < off + length xs" | "off + length xs \<le> i"
    by linarith
  then show "poke off xs mem ! i = (take off mem @ xs @ drop (off + length xs) mem) ! i"
  proof cases
    case 1
    with assms i show ?thesis by (simp add: nth_poke_outside nth_append)
  next
    case 2
    then have "poke off xs mem ! (off + (i - off)) = xs ! (i - off)"
      using assms by (intro nth_poke_inside) auto
    moreover have "i - off < length xs" using 2 by linarith
    ultimately show ?thesis using 2 assms by (simp add: nth_append)
  next
    case 3
    then have "\<not> i - off < length xs" "\<not> i < off" by linarith+
    moreover have "off + length xs + (i - off - length xs) = i" using 3 by linarith
    ultimately show ?thesis using 3 assms i by (simp add: nth_poke_outside nth_append)
  qed
qed

lemma poke_append:
  "off + length xs \<le> length mem \<Longrightarrow> poke off xs (mem @ ys) = poke off xs mem @ ys"
  by (simp add: poke_eq)

lemma poke_tail: "poke (length mem) xs (mem @ replicate (length xs) z) = mem @ xs"
  by (simp add: poke_eq)

lemma load32_store32_same:
  "off + 4 \<le> length mem \<Longrightarrow> load32 off (store32 off w mem) = w"
  by (simp add: load32_def store32_def poke_eq length_le_bytes le_word_le_bytes)

lemma load32_poke_apart:
  assumes "q + 4 \<le> p \<or> p + length xs \<le> q"
  shows "load32 q (poke p xs mem) = load32 q mem"
proof -
  have "take 4 (drop q (poke p xs mem)) = take 4 (drop q mem)"
  proof (rule nth_equalityI)
    show "length (take 4 (drop q (poke p xs mem))) = length (take 4 (drop q mem))"
      by (simp add: length_poke)
  next
    fix i
    assume "i < length (take 4 (drop q (poke p xs mem)))"
    then have i: "i < 4" "q + i < length mem" by (auto simp: length_poke)
    have "poke p xs mem ! (q + i) = mem ! (q + i)"
      using assms i by (intro nth_poke_outside) auto
    with i show "take 4 (drop q (poke p xs mem)) ! i = take 4 (drop q mem) ! i"
      by (simp add: length_poke)
  qed
  then show ?thesis by (simp add: load32_def)
qed

lemma load32_store32_apart:
  "q + 4 \<le> p \<or> p + 4 \<le> q \<Longrightarrow> load32 q (store32 p w mem) = load32 q mem"
  by (simp add: store32_def load32_poke_apart length_le_bytes)

lemma load32_append: "off + 4 \<le> length mem \<Longrightarrow> load32 off (mem @ ys) = load32 off mem"
  by (simp add: load32_def)

lemma store32_append:
  "off + 4 \<le> length mem \<Longrightarrow> store32 off w (mem @ ys) = store32 off w mem @ ys"
  by (simp add: store32_def poke_append length_le_bytes)

lemma length_store32: "length (store32 off w mem) = length mem"
  by (simp add: store32_def length_poke)

section \<open>Size propagation\<close>

lemma item_pos_offset: "item_pos b buf - m_data buf = header_offset buf b"
  by (simp add: item_pos_def data_def committed_def header_offset_def)

lemma header_offset_memory [simp]:
  "header_offset (buf\<lparr>m_memory := mem\<rparr>) b = header_offset buf b"
  by (simp add: header_offset_def)

lemma size_b_load32: "size_b b buf = load32 (header_offset buf b) (m_memory buf)"
  by (simp add: size_b_def item_byte_size_def item_pos_offset)

lemma chain_simps:
  "chain (Builder None off) = [Builder None off]"
  "chain (Builder (Some p) off) = Builder (Some p) off # chain p"
  by (simp_all add: chain_def)

lemma item_add_size_fields:
  "m_data (item_add_size pos sz buf) = m_data buf"
  "m_capacity (item_add_size pos sz buf) = m_capacity buf"
  "m_committed (item_add_size pos sz buf) = m_committed buf"
  "m_builder_count (item_add_size pos sz buf) = m_builder_count buf"
  "m_spare (item_add_size pos sz buf) = m_spare buf"
  "length (m_memory (item_add_size pos sz buf)) = length (m_memory buf)"
  by (simp_all add: item_add_size_def length_store32)

lemma add_size_fields:
  "m_data (add_size b sz buf) = m_data buf \<and>
   m_capacity (add_size b sz buf) = m_capacity buf \<and>
   m_committed (add_size b sz buf) = m_committed buf \<and>
   m_builder_count (add_size b sz buf) = m_builder_count buf \<and>
   m_spare (add_size b sz buf) = m_spare buf \<and>
   length (m_memory (add_size b sz buf)) = length (m_memory buf)"
proof (induction b sz buf rule: add_size.induct)
  case (1 parent off sz buf)
  show ?case
  proof (cases parent)
    case None
    then show ?thesis by (simp add: item_add_size_fields)
  next
    case (Some p)
    with 1 [OF refl Some] show ?thesis by (simp add: item_add_size_fields)
  qed
qed

lemma add_size_written [simp]: "written (add_size b sz buf) = written buf"
  by (simp add: written_def add_size_fields)

lemma add_size_committed [simp]: "m_committed (add_size b sz buf) = m_committed buf"
  by (simp add: add_size_fields)

lemma add_size_data [simp]: "m_data (add_size b sz buf) = m_data buf"
  by (simp add: add_size_fields)

lemma add_size_count [simp]: "m_builder_count (add_size b sz buf) = m_builder_count buf"
  by (simp add: add_size_fields)

lemma header_offset_add_size [simp]: "header_offset (add_size b sz buf) a = header_offset buf a"
  by (simp add: header_offset_def)

lemma header_offset_item_add_size [simp]:
  "header_offset (item_add_size pos sz buf) a = header_offset buf a"
  by (simp add: header_offset_def item_add_size_fields)

text \<open>A size field apart from every header of the chain keeps its value.\<close>

lemma add_size_apart:
  "\<forall>a \<in> set (chain b). q + 4 \<le> header_offset buf a \<or> header_offset buf a + 4 \<le> q \<Longrightarrow>
   load32 q (m_memory (add_size b sz buf)) = load32 q (m_memory buf)"
proof (induction b sz buf rule: add_size.induct)
  case (1 parent off sz buf)
  let ?b = "Builder parent off"
  let ?buf1 = "item_add_size (item_pos ?b buf) sz buf"
  have here: "load32 q (m_memory ?buf1) = load32 q (m_memory buf)"
    using "1.prems"
    by (simp add: item_add_size_def item_pos_offset load32_store32_apart chain_def)
  show ?case
  proof (cases parent)
    case None
    with here show ?thesis by simp
  next
    case (Some p)
    have "\<forall>a \<in> set (chain p). q + 4 \<le> header_offset ?buf1 a \<or> header_offset ?buf1 a + 4 \<le> q"
      using "1.prems" Some by (simp add: chain_simps)
    from "1.IH" [OF refl Some this] here Some show ?thesis by simp
  qed
qed

lemma chain_ok_parent:
  "chain_ok buf (Builder (Some p) off) \<Longrightarrow> chain_ok buf p"
  by (simp add: chain_ok_def chain_simps)

lemma chain_ok_item_add_size:
  "chain_ok (item_add_size pos sz buf) b = chain_ok buf b"
  by (simp add: chain_ok_def written_def item_add_size_fields)

lemma separated_apart:
  "separated (map m_item_offset (b # bs)) \<Longrightarrow> a \<in> set bs \<Longrightarrow>
   m_item_offset b + 4 \<le> m_item_offset a \<or> m_item_offset a + 4 \<le> m_item_offset b"
  by auto

lemma add_size_chain:
  "chain_ok buf b \<Longrightarrow> a \<in> set (chain b) \<Longrightarrow>
   size_b a (add_size b sz buf) = size_b a buf + sz"
proof (induction b sz buf rule: add_size.induct)
  case (1 parent off sz buf)
  let ?b = "Builder parent off"
  let ?buf1 = "item_add_size (item_pos ?b buf) sz buf"
  have inb: "header_offset buf ?b + 4 \<le> length (m_memory buf)"
    using "1.prems"(1) by (simp add: chain_ok_def chain_def written_def)
  have self1: "size_b ?b ?buf1 = size_b ?b buf + sz"
    using inb
    by (simp add: size_b_load32 item_add_size_def item_pos_offset item_byte_size_def
        load32_store32_same)
  show ?case
  proof (cases parent)
    case None
    with "1.prems" self1 show ?thesis by (simp add: chain_simps)
  next
    case (Some p)
    have okp: "chain_ok ?buf1 p"
      using "1.prems"(1) Some chain_ok_parent by (simp add: chain_ok_item_add_size)
    have sep: "\<And>x. x \<in> set (chain p) \<Longrightarrow>
        m_item_offset ?b + 4 \<le> m_item_offset x \<or> m_item_offset x + 4 \<le> m_item_offset ?b"
      using "1.prems"(1) Some by (auto simp add: chain_ok_def chain_simps)
    show ?thesis
    proof (cases "a = ?b")
      case True
      have "\<forall>x \<in> set (chain p). header_offset buf ?b + 4 \<le> header_offset ?buf1 x
          \<or> header_offset ?buf1 x + 4 \<le> header_offset buf ?b"
        using sep by (fastforce simp add: header_offset_def item_add_size_fields)
      from add_size_apart [OF this, of sz] self1 True Some show ?thesis
        by (simp add: size_b_load32)
    next
      case False
      with "1.prems"(2) Some have ap: "a \<in> set (chain p)" by (simp add: chain_simps)
      have "size_b a ?buf1 = size_b a buf"
        using sep [OF ap]
        by (auto simp add: size_b_load32 item_add_size_def item_pos_offset load32_store32_apart
            header_offset_def)
      with "1.IH" [OF refl Some okp ap] Some show ?thesis by simp
    qed
  qed
qed

section \<open>The example arena\<close>

lemma two_level_chain_ok: "chain_ok two_level_buffer sub_builder"
  by (simp add: chain_ok_def chain_def two_level_buffer_def sub_builder_def top_builder_def
      header_offset_def written_def)

lemma two_level_sizes:
  "size_b sub_builder two_level_buffer = 8"
  "size_b top_builder two_level_buffer = 24"
  by (simp_all add: size_b_load32 header_offset_def two_level_buffer_def sub_builder_def
      top_builder_def load32_def)

section \<open>Claims about size propagation and padding\<close>

text \<open>
  C1. \<open>add_size\<close> (the specification's \<open>grow\<close>) adds \<open>delta\<close> to the size field of this
  Builder's record and then calls itself on the parent with the same \<open>delta\<close>: the size
  field of the Builder and of every ancestor grows by exactly \<open>delta\<close>. The sizes are
  \<open>uint32_t\<close> and so is the sum. The Builder is an open one: the size fields of its
  chain lie in the written bytes and do not overlap.
\<close>

theorem add_size_propagates:
  assumes "chain_ok buf b"
  shows "size_b b (add_size b delta buf) = size_b b buf + delta \<and>
         (\<forall>a \<in> set (ancestors b). size_b a (add_size b delta buf) = size_b a buf + delta)"
  using assms add_size_chain [of buf b _ delta] by (simp add: chain_def)

theorem add_size_propagates_witness:
  "chain_ok two_level_buffer sub_builder \<and>
   size_b sub_builder (add_size sub_builder 10 two_level_buffer) = 18 \<and>
   size_b top_builder (add_size sub_builder 10 two_level_buffer) = 34"
  using add_size_propagates [OF two_level_chain_ok, of 10] two_level_chain_ok two_level_sizes
  by (simp add: sub_builder_def top_builder_def)

text \<open>
  C3. When the current size of the Builder's record is a multiple of the alignment
  boundary, \<open>add_padding\<close> (the specification's \<open>pad\<close>), for either value of \<open>self\<close>,
  leaves the arena as it is: no byte is written and no size field changes. The computed
  padding is then the alignment boundary itself, which the code takes as "no padding".
\<close>

theorem add_padding_aligned_noop:
  assumes "unat (size_b b buf) mod align_bytes = 0"
  shows "add_padding debug b self buf = Inr buf"
  using assms by (simp add: add_padding_def align_bytes_def)

theorem add_padding_aligned_noop_witness:
  "unat (size_b sub_builder two_level_buffer) mod align_bytes = 0 \<and>
   add_padding True sub_builder False two_level_buffer = Inr two_level_buffer \<and>
   add_padding True sub_builder True two_level_buffer = Inr two_level_buffer"
proof -
  have h: "unat (size_b sub_builder two_level_buffer) mod align_bytes = 0"
    by (simp add: two_level_sizes align_bytes_def)
  from add_padding_aligned_noop [OF h] h show ?thesis by simp
qed

section \<open>Reserving and writing at the tail\<close>

lemma poke_beyond: "length mem \<le> off \<Longrightarrow> poke off xs mem = mem"
  by (induction xs arbitrary: off mem) (auto simp add: list_update_beyond)

lemma poke_reserved:
  "length xs \<le> length ys \<Longrightarrow>
   poke (length mem) xs (mem @ ys) = mem @ xs @ drop (length xs) ys"
  by (simp add: poke_eq)

lemma length_fresh_storage [simp]: "length (fresh_storage n buf) = n"
  by (simp add: fresh_storage_def stale_bytes_def Let_def)

lemma reserve_space_memory:
  "m_memory (snd (reserve_space n buf)) = m_memory buf @ fresh_storage n buf"
  by (simp add: reserve_space_def buffer_reserve_space_def fresh_storage_def Let_def
      buffer_grow_def)

lemma reserve_space_target:
  "fst (reserve_space n buf) - m_data (snd (reserve_space n buf)) = written buf"
  by (simp add: reserve_space_def buffer_reserve_space_def Let_def buffer_grow_def written_def)

lemma reserve_space_committed:
  "m_committed (snd (reserve_space n buf)) = m_committed buf"
  by (simp add: reserve_space_def buffer_reserve_space_def Let_def buffer_grow_def)

lemma reserve_space_count:
  "m_builder_count (snd (reserve_space n buf)) = m_builder_count buf"
  by (simp add: reserve_space_def buffer_reserve_space_def Let_def buffer_grow_def)

lemma reserve_space_written:
  "written (snd (reserve_space n buf)) = written buf + n"
  by (simp add: written_def reserve_space_memory)

text \<open>Reserving and then copying: the new bytes follow the old ones.\<close>

lemma reserve_copy_memory:
  "m_memory (copy_n src n (fst (reserve_space n buf)) (snd (reserve_space n buf))) =
   m_memory buf @ take n src @ drop (length src) (fresh_storage n buf)"
proof -
  have "drop (length (take n src)) (fresh_storage n buf) = drop (length src) (fresh_storage n buf)"
    by (cases "length src \<le> n") (simp_all add: min_def)
  then show ?thesis
    by (simp add: copy_n_def reserve_space_target reserve_space_memory written_def poke_reserved)
qed

lemma reserve_fill_memory:
  "m_memory (fill_n (fst (reserve_space n buf)) n c (snd (reserve_space n buf))) =
   m_memory buf @ replicate n c"
  using poke_reserved [of "replicate n c" "fresh_storage n buf" "m_memory buf"]
  by (simp add: fill_n_def reserve_space_target reserve_space_memory written_def)

lemma copy_n_fields:
  "m_data (copy_n src n t buf) = m_data buf"
  "m_committed (copy_n src n t buf) = m_committed buf"
  "m_builder_count (copy_n src n t buf) = m_builder_count buf"
  "m_capacity (copy_n src n t buf) = m_capacity buf"
  "m_spare (copy_n src n t buf) = m_spare buf"
  by (simp_all add: copy_n_def)

lemma fill_n_fields:
  "m_data (fill_n t n c buf) = m_data buf"
  "m_committed (fill_n t n c buf) = m_committed buf"
  "m_builder_count (fill_n t n c buf) = m_builder_count buf"
  "m_capacity (fill_n t n c buf) = m_capacity buf"
  "m_spare (fill_n t n c buf) = m_spare buf"
  by (simp_all add: fill_n_def)

lemma store_byte_fields:
  "m_data (store_byte t c buf) = m_data buf"
  "m_committed (store_byte t c buf) = m_committed buf"
  "m_builder_count (store_byte t c buf) = m_builder_count buf"
  "m_capacity (store_byte t c buf) = m_capacity buf"
  "m_spare (store_byte t c buf) = m_spare buf"
  by (simp_all add: store_byte_def)

lemma append_b_fst: "fst (append_b b src len buf) = len"
  by (simp add: append_b_def case_prod_beta)

lemma append_b_memory:
  "m_memory (snd (append_b b src len buf)) =
   m_memory buf @ take (unat len) src @ drop (length src) (fresh_storage (unat len) buf)"
  by (simp add: append_b_def case_prod_beta reserve_copy_memory)

lemma append_b_committed: "m_committed (snd (append_b b src len buf)) = m_committed buf"
  by (simp add: append_b_def case_prod_beta copy_n_fields reserve_space_committed)

lemma append_b_count: "m_builder_count (snd (append_b b src len buf)) = m_builder_count buf"
  by (simp add: append_b_def case_prod_beta copy_n_fields reserve_space_count)

lemma append_with_zero_fst: "fst (append_with_zero b src len buf) = len + 1"
  by (simp add: append_with_zero_def case_prod_beta Let_def)

lemma append_with_zero_committed:
  "m_committed (snd (append_with_zero b src len buf)) = m_committed buf"
  by (simp add: append_with_zero_def case_prod_beta Let_def store_byte_fields copy_n_fields
      reserve_space_committed)

lemma append_with_zero_count:
  "m_builder_count (snd (append_with_zero b src len buf)) = m_builder_count buf"
  by (simp add: append_with_zero_def case_prod_beta Let_def store_byte_fields copy_n_fields
      reserve_space_count)

text \<open>
  Whatever the arguments, \<open>append_with_zero\<close> leaves the bytes written before as they
  are and adds \<open>unat (len + 1)\<close> bytes.
\<close>

lemma append_with_zero_prefix:
  "\<exists>new. length new = unat (len + 1) \<and>
         m_memory (snd (append_with_zero b src len buf)) = m_memory buf @ new"
proof -
  let ?r = "reserve_space (unat (len + 1)) buf"
  let ?m1 = "m_memory buf @ fresh_storage (unat (len + 1)) buf"
  let ?t = "fst ?r - m_data (snd ?r)"
  let ?m2 = "poke ?t (take (unat len) src) ?m1"
  let ?m3 = "poke (fst ?r + unat len - m_data (snd ?r)) [0] ?m2"
  have m: "m_memory (snd (append_with_zero b src len buf)) = ?m3"
    by (simp add: append_with_zero_def case_prod_beta Let_def store_byte_def copy_n_def
        reserve_space_memory)
  have t: "?t = length (m_memory buf)"
    by (simp add: reserve_space_target written_def)
  have len: "length ?m3 = length (m_memory buf) + unat (len + 1)"
    by (simp add: length_poke)
  have pre: "take (length (m_memory buf)) ?m3 = m_memory buf"
  proof (rule nth_equalityI)
    show "length (take (length (m_memory buf)) ?m3) = length (m_memory buf)"
      using len by simp
  next
    fix i assume "i < length (take (length (m_memory buf)) ?m3)"
    then have i: "i < length (m_memory buf)" by simp
    have "fst ?r + unat len - m_data (snd ?r) = ?t + unat len"
      using reserve_space_target [of "unat (len + 1)" buf]
      by (simp add: reserve_space_def buffer_reserve_space_def Let_def buffer_grow_def)
    then have "?m3 ! i = ?m2 ! i"
      using i t by (simp add: nth_poke_outside)
    also have "\<dots> = ?m1 ! i" using i t by (simp add: nth_poke_outside)
    also have "\<dots> = m_memory buf ! i" using i by (simp add: nth_append)
    finally show "take (length (m_memory buf)) ?m3 ! i = m_memory buf ! i" using i by simp
  qed
  have "?m3 = take (length (m_memory buf)) ?m3 @ drop (length (m_memory buf)) ?m3" by simp
  with pre have "?m3 = m_memory buf @ drop (length (m_memory buf)) ?m3" by simp
  moreover have "length (drop (length (m_memory buf)) ?m3) = unat (len + 1)" using len by simp
  ultimately show ?thesis using m by metis
qed


section \<open>Appending leaves the sizes alone\<close>

text \<open>A buffer that only gained bytes at the tail keeps every chain and every size.\<close>

lemma extended_chain_ok:
  "chain_ok buf b \<Longrightarrow> m_committed buf' = m_committed buf \<Longrightarrow>
   m_memory buf' = m_memory buf @ new \<Longrightarrow> chain_ok buf' b"
  by (auto simp add: chain_ok_def written_def header_offset_def)

lemma extended_size_b:
  "header_offset buf a + 4 \<le> written buf \<Longrightarrow> m_committed buf' = m_committed buf \<Longrightarrow>
   m_memory buf' = m_memory buf @ new \<Longrightarrow> size_b a buf' = size_b a buf"
  by (simp add: size_b_load32 header_offset_def written_def load32_append)

lemma chain_ok_in_bounds:
  "chain_ok buf b \<Longrightarrow> a \<in> set (chain b) \<Longrightarrow> header_offset buf a + 4 \<le> written buf"
  by (simp add: chain_ok_def)

lemma append_str_memory:
  "m_memory (snd (append_str b str buf)) =
   m_memory buf @ take (unat (word_of_nat (strlen str + 1) :: item_size_type)) str @
   drop (length str) (fresh_storage (unat (word_of_nat (strlen str + 1) :: item_size_type)) buf)"
  by (simp add: append_str_def append_b_memory)

lemma do_append_extends:
  "m_committed (snd (do_append b c buf)) = m_committed buf \<and>
   (\<exists>new. m_memory (snd (do_append b c buf)) = m_memory buf @ new)"
proof (cases c)
  case (Append src len)
  then show ?thesis by (simp add: append_b_committed append_b_memory)
next
  case (Append_with_zero src len)
  then show ?thesis
    using append_with_zero_prefix [of len b src buf] by (auto simp add: append_with_zero_committed)
next
  case (Append_str str)
  then show ?thesis by (simp add: append_str_def append_b_committed append_b_memory)
qed

lemma append_all_extends:
  "m_committed (snd (append_all b cs buf)) = m_committed buf \<and>
   (\<exists>new. m_memory (snd (append_all b cs buf)) = m_memory buf @ new)"
proof (induction cs arbitrary: buf)
  case Nil
  then show ?case by simp
next
  case (Cons c cs)
  let ?buf1 = "snd (do_append b c buf)"
  from do_append_extends [of b c buf] obtain n1 where
    1: "m_committed ?buf1 = m_committed buf" "m_memory ?buf1 = m_memory buf @ n1" by blast
  from Cons.IH [of ?buf1] obtain n2 where
    2: "m_committed (snd (append_all b cs ?buf1)) = m_committed ?buf1"
       "m_memory (snd (append_all b cs ?buf1)) = m_memory ?buf1 @ n2" by blast
  have "snd (append_all b (c # cs) buf) = snd (append_all b cs ?buf1)"
    by (simp add: case_prod_beta)
  with 1 2 show ?case by simp
qed

section \<open>Claims about appending\<close>

lemma three_appends_total: "fst (append_all sub_builder three_appends two_level_buffer) = 9"
  by (simp add: three_appends_def case_prod_beta append_b_fst append_with_zero_fst
      append_str_def strlen_def)

text \<open>
  C2. On a Builder whose record header holds the size \<open>H\<close>, any sequence of calls of
  the append functions whose returned lengths add up to \<open>L\<close>, followed by
  \<open>add_size L\<close>, leaves \<open>size()\<close> at \<open>H + L\<close> (in \<open>uint32_t\<close>).
\<close>

theorem appends_then_add_size:
  assumes "chain_ok buf b" and "size_b b buf = H" and "append_all b calls buf = (L, buf')"
  shows "size_b b (add_size b L buf') = H + L"
proof -
  from append_all_extends [of b calls buf] assms(3) obtain new where
    e: "m_committed buf' = m_committed buf" "m_memory buf' = m_memory buf @ new" by auto
  have ok: "chain_ok buf' b" using assms(1) e by (rule extended_chain_ok)
  have "b \<in> set (chain b)" by (simp add: chain_def)
  then have "header_offset buf b + 4 \<le> written buf"
    using assms(1) chain_ok_in_bounds by blast
  then have "size_b b buf' = H" using e assms(2) extended_size_b by metis
  with add_size_chain [OF ok, of b L] show ?thesis by (simp add: chain_def)
qed

theorem appends_then_add_size_witness:
  "chain_ok two_level_buffer sub_builder \<and> size_b sub_builder two_level_buffer = 8 \<and>
   fst (append_all sub_builder three_appends two_level_buffer) = 9 \<and>
   size_b sub_builder
     (add_size sub_builder 9 (snd (append_all sub_builder three_appends two_level_buffer))) = 17"
proof -
  have r: "append_all sub_builder three_appends two_level_buffer =
           (9, snd (append_all sub_builder three_appends two_level_buffer))"
    using three_appends_total by (metis prod.collapse)
  from appends_then_add_size [OF two_level_chain_ok two_level_sizes(1) r]
  show ?thesis using two_level_chain_ok two_level_sizes(1) three_appends_total by simp
qed






section \<open>Claims about sub-records\<close>

text \<open>\<open>add_size\<close> writes into the size fields of the chain and nowhere else.\<close>

lemma store32_nth_outside:
  "i < p \<or> p + 4 \<le> i \<Longrightarrow> store32 p w mem ! i = mem ! i"
  by (simp add: store32_def nth_poke_outside length_le_bytes)

lemma add_size_nth_outside:
  "\<forall>a \<in> set (chain b). i < header_offset buf a \<or> header_offset buf a + 4 \<le> i \<Longrightarrow>
   m_memory (add_size b sz buf) ! i = m_memory buf ! i"
proof (induction b sz buf rule: add_size.induct)
  case (1 parent off sz buf)
  let ?b = "Builder parent off"
  let ?buf1 = "item_add_size (item_pos ?b buf) sz buf"
  have here: "m_memory ?buf1 ! i = m_memory buf ! i"
    using "1.prems"
    by (simp add: item_add_size_def item_pos_offset store32_nth_outside chain_def)
  show ?case
  proof (cases parent)
    case None
    with here show ?thesis by simp
  next
    case (Some p)
    have "\<forall>a \<in> set (chain p). i < header_offset ?buf1 a \<or> header_offset ?buf1 a + 4 \<le> i"
      using "1.prems" Some by (simp add: chain_simps)
    from "1.IH" [OF refl Some this] here Some show ?thesis by simp
  qed
qed

lemma add_size_tail:
  assumes "\<forall>a \<in> set (chain b). header_offset buf a + 4 \<le> w"
  shows "drop w (m_memory (add_size b sz buf)) = drop w (m_memory buf)"
proof (rule nth_equalityI)
  show "length (drop w (m_memory (add_size b sz buf))) = length (drop w (m_memory buf))"
    by (simp add: add_size_fields)
next
  fix i
  assume "i < length (drop w (m_memory (add_size b sz buf)))"
  then have i: "w + i < length (m_memory buf)" by (simp add: add_size_fields)
  have "m_memory (add_size b sz buf) ! (w + i) = m_memory buf ! (w + i)"
    using assms by (intro add_size_nth_outside) auto
  with i show "drop w (m_memory (add_size b sz buf)) ! i = drop w (m_memory buf) ! i"
    by (simp add: add_size_fields)
qed

lemma buffer_add_item_memory:
  "m_memory (buffer_add_item item buf) =
   m_memory buf @ take (unat (padded_size item)) item @
   drop (length item) (fresh_storage (unat (padded_size item)) buf)"
  using reserve_copy_memory [of item "unat (padded_size item)" buf]
  by (simp add: buffer_add_item_def case_prod_beta reserve_space_def)

lemma buffer_add_item_committed:
  "m_committed (buffer_add_item item buf) = m_committed buf"
  using reserve_space_committed [of "unat (padded_size item)" buf]
  by (simp add: buffer_add_item_def case_prod_beta copy_n_fields reserve_space_def)

lemma buffer_add_item_count:
  "m_builder_count (buffer_add_item item buf) = m_builder_count buf"
  using reserve_space_count [of "unat (padded_size item)" buf]
  by (simp add: buffer_add_item_def case_prod_beta copy_n_fields reserve_space_def)

lemma finished_item_padded: "padded_size finished_item = 16"
  by (simp add: padded_size_def padded_length_def load32_def finished_item_def align_bytes_def)

text \<open>
  C5. \<open>add_item\<close> (the specification's \<open>attach\<close>) has the buffer copy the bytes of the
  finished record to the tail and then adds the padded size of that record to the size
  field of this Builder and of every ancestor. A finished record occupies as many bytes
  as its padded size says.
\<close>

theorem add_item_grows_chain:
  assumes "chain_ok buf b" and "unat (padded_size item) \<le> length item"
  shows "(\<forall>a \<in> set (chain b). size_b a (add_item b item buf) = size_b a buf + padded_size item) \<and>
         written (add_item b item buf) = written buf + unat (padded_size item) \<and>
         drop (written buf) (m_memory (add_item b item buf)) = take (unat (padded_size item)) item"
proof -
  let ?buf1 = "buffer_add_item item buf"
  let ?n = "unat (padded_size item)"
  have m: "m_memory ?buf1 = m_memory buf @ take ?n item"
    using assms(2) by (simp add: buffer_add_item_memory)
  have c: "m_committed ?buf1 = m_committed buf" by (rule buffer_add_item_committed)
  have ok: "chain_ok ?buf1 b" using assms(1) c m by (rule extended_chain_ok)
  have sizes: "\<forall>a \<in> set (chain b). size_b a (add_item b item buf) = size_b a buf + padded_size item"
  proof
    fix a assume a: "a \<in> set (chain b)"
    then have "header_offset buf a + 4 \<le> written buf"
      using assms(1) chain_ok_in_bounds by blast
    then have "size_b a ?buf1 = size_b a buf" using c m by (rule extended_size_b)
    with add_size_chain [OF ok a] show "size_b a (add_item b item buf) = size_b a buf + padded_size item"
      by (simp add: add_item_def)
  qed
  have w: "written (add_item b item buf) = written buf + ?n"
    using assms(2) m by (simp add: add_item_def written_def add_size_fields)
  have "\<forall>a \<in> set (chain b). header_offset ?buf1 a + 4 \<le> written buf"
    using assms(1) c by (simp add: chain_ok_def header_offset_def)
  then have "drop (written buf) (m_memory (add_item b item buf)) = drop (written buf) (m_memory ?buf1)"
    unfolding add_item_def by (rule add_size_tail)
  with m have "drop (written buf) (m_memory (add_item b item buf)) = take ?n item"
    by (simp add: written_def)
  with sizes w show ?thesis by simp
qed

theorem add_item_grows_chain_witness:
  "chain_ok two_level_buffer sub_builder \<and> unat (padded_size finished_item) \<le> length finished_item \<and>
   size_b sub_builder (add_item sub_builder finished_item two_level_buffer) = 24 \<and>
   size_b top_builder (add_item sub_builder finished_item two_level_buffer) = 40 \<and>
   drop 24 (m_memory (add_item sub_builder finished_item two_level_buffer)) = finished_item"
proof -
  have l: "unat (padded_size finished_item) \<le> length finished_item"
    by (simp add: finished_item_padded) (simp add: finished_item_def)
  have w: "written two_level_buffer = 24" by (simp add: written_def two_level_buffer_def)
  from add_item_grows_chain [OF two_level_chain_ok l] two_level_chain_ok l w
  show ?thesis
    by (simp add: chain_def sub_builder_def top_builder_def two_level_sizes [unfolded sub_builder_def top_builder_def] finished_item_padded)
      (simp add: finished_item_def)
qed

section \<open>The constructor\<close>

lemma increment_fields:
  "m_memory (increment_builder_count buf) = m_memory buf"
  "m_committed (increment_builder_count buf) = m_committed buf"
  "m_data (increment_builder_count buf) = m_data buf"
  "m_builder_count (increment_builder_count buf) = m_builder_count buf + 1"
  by (simp_all add: increment_builder_count_def)

lemma Builder_ctor_Inr:
  assumes "Builder_ctor debug buf parent sz = Inr (b, buf')"
  shows "b = Builder parent (written buf - committed buf)"
    and "m_committed buf' = m_committed buf"
    and "m_memory buf' =
         (case parent of
            None \<Rightarrow> m_memory buf @ fresh_storage (unat sz) buf
          | Some p \<Rightarrow> m_memory (add_size p sz (snd (reserve_space (unat sz) buf))))"
    and "m_builder_count buf' = m_builder_count buf + (if debug then 1 else 0)"
    and "debug \<Longrightarrow> (written buf + unat sz) mod align_bytes = 0"
    and "debug \<Longrightarrow> m_builder_count buf = (case parent of None \<Rightarrow> 0 | Some p \<Rightarrow> 1)"
  using assms
  by (auto simp add: Builder_ctor_def Let_def increment_fields reserve_space_committed
      reserve_space_memory reserve_space_count builder_count_def is_aligned_def
      reserve_space_written
      split: if_splits option.splits)

lemma Builder_ctor_succeeds:
  assumes "debug \<Longrightarrow> (written buf + unat sz) mod align_bytes = 0"
    and "debug \<Longrightarrow> m_builder_count buf = (case parent of None \<Rightarrow> 0 | Some p \<Rightarrow> 1)"
  shows "\<exists>buf'. Builder_ctor debug buf parent sz = Inr (Builder parent (written buf - committed buf), buf')"
  using assms
  by (cases parent)
    (auto simp add: Builder_ctor_def Let_def builder_count_def is_aligned_def
      reserve_space_written reserve_space_count)

lemma separated_Cons_apart:
  "separated (map m_item_offset bs) \<Longrightarrow> \<forall>a \<in> set bs. m_item_offset a + 4 \<le> off \<Longrightarrow>
   separated (off # map m_item_offset bs)"
  by auto

text \<open>
  The constructor gives a usable chain to every Builder whose header has room for the
  size field, when the parent (if any) has one.
\<close>

lemma Builder_ctor_chain_ok:
  assumes ctor: "Builder_ctor debug buf parent sz = Inr (b, buf')"
    and par: "case parent of None \<Rightarrow> True | Some p \<Rightarrow> chain_ok buf p"
    and cw: "m_committed buf \<le> written buf"
    and sz: "4 \<le> unat sz"
  shows "chain_ok buf' b"
proof -
  note r = Builder_ctor_Inr [OF ctor]
  have b: "b = Builder parent (written buf - m_committed buf)"
    using r(1) by (simp add: committed_def)
  have len: "written buf' = written buf + unat sz"
    using r(3) by (cases parent) (simp_all add: written_def add_size_fields reserve_space_memory)
  have hb: "header_offset buf' b = written buf"
    using cw r(2) by (simp add: header_offset_def b)
  show ?thesis
  proof (cases parent)
    case None
    then show ?thesis using hb len sz by (simp add: chain_ok_def b chain_simps)
  next
    case (Some p)
    with par have okp: "chain_ok buf p" by simp
    have inb: "\<forall>a \<in> set (chain p). header_offset buf' a + 4 \<le> written buf'"
      using okp r(2) len by (auto simp add: chain_ok_def header_offset_def)
    have "\<forall>a \<in> set (chain p). m_item_offset a + 4 \<le> written buf - m_committed buf"
      using okp cw by (auto simp add: chain_ok_def header_offset_def)
    then have sep: "separated (map m_item_offset (chain b))"
      using okp Some by (auto simp add: b chain_simps chain_ok_def)
    from inb sep hb len sz Some show ?thesis
      by (simp add: chain_ok_def b chain_simps)
  qed
qed

section \<open>Claims about the nested padding scenario\<close>

lemma size_b_cong:
  "m_memory buf' = m_memory buf \<Longrightarrow> m_committed buf' = m_committed buf \<Longrightarrow>
   size_b a buf' = size_b a buf"
  by (simp add: size_b_load32 header_offset_def)

lemma chain_ok_cong:
  "length (m_memory buf') = length (m_memory buf) \<Longrightarrow> m_committed buf' = m_committed buf \<Longrightarrow>
   chain_ok buf' b = chain_ok buf b"
  by (simp add: chain_ok_def header_offset_def written_def)

lemma init_header_fields:
  "m_committed (init_header b sz buf) = m_committed buf"
  "length (m_memory (init_header b sz buf)) = length (m_memory buf)"
  "m_builder_count (init_header b sz buf) = m_builder_count buf"
  by (simp_all add: init_header_def length_store32)

lemma init_header_self:
  "header_offset buf b + 4 \<le> written buf \<Longrightarrow> size_b b (init_header b sz buf) = sz"
  by (simp add: size_b_load32 init_header_def item_pos_offset load32_store32_same written_def)

lemma init_header_other:
  "header_offset buf a + 4 \<le> header_offset buf b \<or> header_offset buf b + 4 \<le> header_offset buf a \<Longrightarrow>
   size_b a (init_header b sz buf) = size_b a buf"
  by (simp add: size_b_load32 init_header_def item_pos_offset load32_store32_apart)

lemma chain_ok_apart:
  "chain_ok buf (Builder (Some p) off) \<Longrightarrow> a \<in> set (chain p) \<Longrightarrow>
   header_offset buf a + 4 \<le> header_offset buf (Builder (Some p) off) \<or>
   header_offset buf (Builder (Some p) off) + 4 \<le> header_offset buf a"
  by (auto simp add: chain_ok_def chain_simps header_offset_def)

lemma reserve_fill_committed:
  "m_committed (fill_n (fst (reserve_space n buf)) n c (snd (reserve_space n buf))) = m_committed buf"
  by (simp add: fill_n_fields reserve_space_committed)

lemma Builder_dtor_fields:
  "m_memory (Builder_dtor debug b buf) = m_memory buf"
  "m_committed (Builder_dtor debug b buf) = m_committed buf"
  by (simp_all add: Builder_dtor_def decrement_builder_count_def)

lemma parent_open_facts:
  "chain_ok parent_open_buffer top_builder"
  "size_b top_builder parent_open_buffer = 16"
  "m_committed parent_open_buffer \<le> written parent_open_buffer"
  "is_aligned parent_open_buffer"
  "builder_count parent_open_buffer = 1"
  by (simp_all add: chain_ok_def chain_def parent_open_buffer_def top_builder_def
      header_offset_def written_def size_b_load32 load32_def is_aligned_def align_bytes_def
      builder_count_def)

lemma nested_padding_scenario_run:
  assumes ok: "chain_ok buf parent" and sz: "size_b parent buf = 16"
    and cw: "m_committed buf \<le> written buf"
    and al: "debug \<Longrightarrow> is_aligned buf"
    and cnt: "debug \<Longrightarrow> builder_count buf = 1"
  shows "nested_padding_scenario debug parent buf payload =
         Inr \<lparr>parent_after_open = 24, child_after_grow = 18, parent_after_grow = 34,
              padding_bytes = 6, child_after_pad = 18, parent_after_pad = 40,
              parent_after_destroy = 40\<rparr>"
proof -
  define child where "child = Builder (Some parent) (written buf - committed buf)"
  have pc: "parent \<in> set (chain child)" "child \<in> set (chain child)" "parent \<in> set (chain parent)"
    by (simp_all add: child_def chain_def)
  have mp: "m_parent child = Some parent" by (simp add: child_def)
  \<comment> \<open>opening the child\<close>
  have "\<exists>buf1. Builder_ctor debug buf (Some parent) 8 = Inr (child, buf1)"
    unfolding child_def using al cnt
    by (intro Builder_ctor_succeeds) (simp_all add: is_aligned_def builder_count_def align_bytes_def)
  then obtain buf1 where ctor: "Builder_ctor debug buf (Some parent) 8 = Inr (child, buf1)" ..
  note r = Builder_ctor_Inr [OF ctor]
  have ok1: "chain_ok buf1 child"
    using ctor ok cw by (intro Builder_ctor_chain_ok [OF ctor]) simp_all
  let ?res = "snd (reserve_space (unat (8 :: item_size_type)) buf)"
  have okr: "chain_ok ?res parent"
    using ok reserve_space_committed reserve_space_memory by (rule extended_chain_ok)
  have "size_b parent ?res = size_b parent buf"
    using chain_ok_in_bounds [OF ok pc(3)] reserve_space_committed reserve_space_memory
    by (rule extended_size_b)
  with add_size_chain [OF okr pc(3), of 8] sz have "size_b parent (add_size parent 8 ?res) = 24"
    by simp
  moreover have "size_b parent buf1 = size_b parent (add_size parent 8 ?res)"
    using r(2,3) by (intro size_b_cong) (simp_all add: reserve_space_committed)
  ultimately have p1: "size_b parent buf1 = 24" by simp
  \<comment> \<open>constructing the child's header\<close>
  define buf2 where "buf2 = init_header child 8 buf1"
  have ok2: "chain_ok buf2 child"
    using ok1 chain_ok_cong [of buf2 buf1 child] by (simp add: buf2_def init_header_fields)
  have c2: "size_b child buf2 = 8"
    unfolding buf2_def using chain_ok_in_bounds [OF ok1 pc(2)] by (rule init_header_self)
  have "size_b parent buf2 = size_b parent buf1"
    unfolding buf2_def using chain_ok_apart [OF ok1 [unfolded child_def] pc(3)]
    by (intro init_header_other) (simp add: child_def)
  with p1 have p2: "size_b parent buf2 = 24" by simp
  \<comment> \<open>appending ten bytes\<close>
  define buf3 where "buf3 = snd (append_b child payload 10 buf2)"
  have ap: "append_b child payload 10 buf2 = (10, buf3)"
    using append_b_fst [of child payload 10 buf2] by (simp add: buf3_def prod_eq_iff)
  have e3: "m_committed buf3 = m_committed buf2"
    "m_memory buf3 = m_memory buf2 @ take (unat (10 :: item_size_type)) payload @
       drop (length payload) (fresh_storage (unat (10 :: item_size_type)) buf2)"
    by (simp_all add: buf3_def append_b_committed append_b_memory)
  have ok3: "chain_ok buf3 child" using ok2 e3 by (rule extended_chain_ok)
  have c3: "size_b child buf3 = 8"
    using extended_size_b [OF chain_ok_in_bounds [OF ok2 pc(2)] e3] c2 by simp
  have p3: "size_b parent buf3 = 24"
    using extended_size_b [OF chain_ok_in_bounds [OF ok2 pc(1)] e3] p2 by simp
  \<comment> \<open>\<open>add_size(10)\<close>\<close>
  define buf4 where "buf4 = add_size child 10 buf3"
  have c4: "size_b child buf4 = 18"
    using add_size_chain [OF ok3 pc(2), of 10] c3 by (simp add: buf4_def)
  have p4: "size_b parent buf4 = 34"
    using add_size_chain [OF ok3 pc(1), of 10] p3 by (simp add: buf4_def)
  have ok4: "chain_ok buf4 child"
    using ok3 chain_ok_cong [of buf4 buf3 child] by (simp add: buf4_def add_size_fields)
  \<comment> \<open>\<open>add_padding(false)\<close>\<close>
  define buf4' where
    "buf4' = fill_n (fst (reserve_space 6 buf4)) 6 0 (snd (reserve_space 6 buf4))"
  define buf5 where "buf5 = add_size parent 6 buf4'"
  have e4: "m_committed buf4' = m_committed buf4" "m_memory buf4' = m_memory buf4 @ replicate 6 0"
    by (simp_all add: buf4'_def reserve_fill_committed reserve_fill_memory)
  have ok4': "chain_ok buf4' child" using ok4 e4 by (rule extended_chain_ok)
  have okp4': "chain_ok buf4' parent"
    using ok4' chain_ok_parent unfolding child_def by blast
  have c4': "size_b child buf4' = 18"
    using extended_size_b [OF chain_ok_in_bounds [OF ok4 pc(2)] e4] c4 by simp
  have p4': "size_b parent buf4' = 34"
    using extended_size_b [OF chain_ok_in_bounds [OF ok4 pc(1)] e4] p4 by simp
  have p5: "size_b parent buf5 = 40"
    using add_size_chain [OF okp4' pc(3), of 6] p4' by (simp add: buf5_def)
  have "\<forall>a \<in> set (chain parent).
          header_offset buf4' child + 4 \<le> header_offset buf4' a \<or>
          header_offset buf4' a + 4 \<le> header_offset buf4' child"
    using chain_ok_apart [OF ok4' [unfolded child_def]] by (auto simp add: child_def)
  from add_size_apart [OF this, of 6] c4' have c5: "size_b child buf5 = 18"
    by (simp add: buf5_def size_b_load32)
  have w5: "written buf5 - written buf4 = 6"
    using e4 by (simp add: buf5_def written_def add_size_fields)
  have pad: "add_padding debug child False buf4 = Inr buf5"
    using c4 mp p5
    by (simp add: add_padding_def align_bytes_def case_prod_beta Let_def
        buf5_def [symmetric] buf4'_def [symmetric])
  \<comment> \<open>destroying the child\<close>
  have p6: "size_b parent (Builder_dtor debug child buf5) = 40"
    using p5 size_b_cong [OF Builder_dtor_fields] by simp
  show ?thesis
    using ctor ap pad p2 c4 p4 w5 c5 p5 p6
    by (simp add: nested_padding_scenario_def Let_def buf2_def [symmetric] buf4_def [symmetric])
qed

text \<open>
  C4, as the code has it. A parent with size 16 opens a child with an 8-byte header:
  the parent's size becomes 24. The child appends 10 bytes and calls \<open>add_size(10)\<close>:
  the child's size becomes 18 and, \<open>add_size\<close> going on to the parent, the parent's
  size 34. \<open>add_padding(false)\<close> then writes 6 bytes and adds them to the parent and
  not to the child: the parent's size is 40, the child's stays 18, and destroying the
  child leaves the parent at 40. In an instrumented build no assertion fails.
\<close>

theorem nested_padding_scenario_sizes:
  assumes "chain_ok buf parent" and "size_b parent buf = 16"
    and "m_committed buf \<le> written buf"
    and "debug \<Longrightarrow> is_aligned buf"
    and "debug \<Longrightarrow> builder_count buf = 1"
  shows "nested_padding_scenario debug parent buf payload =
         Inr \<lparr>parent_after_open = 24, child_after_grow = 18, parent_after_grow = 34,
              padding_bytes = 6, child_after_pad = 18, parent_after_pad = 40,
              parent_after_destroy = 40\<rparr>"
  using assms by (rule nested_padding_scenario_run)

theorem nested_padding_scenario_sizes_witness:
  "chain_ok parent_open_buffer top_builder \<and> size_b top_builder parent_open_buffer = 16 \<and>
   m_committed parent_open_buffer \<le> written parent_open_buffer \<and>
   is_aligned parent_open_buffer \<and> builder_count parent_open_buffer = 1 \<and>
   nested_padding_scenario True top_builder parent_open_buffer [1, 2, 3, 4, 5, 6, 7, 8, 9, 10] =
     Inr \<lparr>parent_after_open = 24, child_after_grow = 18, parent_after_grow = 34,
          padding_bytes = 6, child_after_pad = 18, parent_after_pad = 40,
          parent_after_destroy = 40\<rparr>"
  using nested_padding_scenario_sizes [OF parent_open_facts(1,2,3,4,5), of True]
    parent_open_facts
  by simp

text \<open>
  C4 as stated has the parent at 30 after the padding and after the child is destroyed.
  On the example arena the scenario runs without a failed assertion and the parent's
  size is 40 at both points.
\<close>

theorem nested_padding_parent_is_not_30:
  "\<not> isl (nested_padding_scenario True top_builder parent_open_buffer
            [1, 2, 3, 4, 5, 6, 7, 8, 9, 10]) \<and>
   child_after_pad (projr (nested_padding_scenario True top_builder parent_open_buffer
            [1, 2, 3, 4, 5, 6, 7, 8, 9, 10])) = 18 \<and>
   parent_after_pad (projr (nested_padding_scenario True top_builder parent_open_buffer
            [1, 2, 3, 4, 5, 6, 7, 8, 9, 10])) \<noteq> 30 \<and>
   parent_after_destroy (projr (nested_padding_scenario True top_builder parent_open_buffer
            [1, 2, 3, 4, 5, 6, 7, 8, 9, 10])) \<noteq> 30"
  using nested_padding_scenario_run [OF parent_open_facts(1,2,3,4,5), of True]
  by simp

section \<open>Claims about the record's address\<close>

lemma add_padding_committed:
  "add_padding debug a self buf = Inr buf' \<Longrightarrow> m_committed buf' = m_committed buf"
  by (auto simp add: add_padding_def Let_def case_prod_beta reserve_fill_committed
      split: if_splits option.splits)

lemma do_append_committed: "m_committed (snd (do_append a call buf)) = m_committed buf"
  using do_append_extends [of a call buf] by simp

lemma add_item_committed: "m_committed (add_item a item buf) = m_committed buf"
  by (simp add: add_item_def buffer_add_item_committed)

lemma reserve_space_data_cases:
  "m_data (snd (reserve_space n buf)) =
     (if written buf + n > m_capacity buf then m_spare buf else m_data buf)"
  by (simp add: reserve_space_def buffer_reserve_space_def Let_def buffer_grow_def)

lemma open_sub_builder:
  "\<not> isl (Builder_ctor True parent_open_buffer (Some top_builder) 8)"
  "fst (projr (Builder_ctor True parent_open_buffer (Some top_builder) 8)) = sub_builder"
proof -
  have "\<exists>buf'. Builder_ctor True parent_open_buffer (Some top_builder) 8 =
      Inr (Builder (Some top_builder) (written parent_open_buffer - committed parent_open_buffer), buf')"
    by (rule Builder_ctor_succeeds)
      (simp_all add: parent_open_buffer_def written_def align_bytes_def)
  then obtain buf' where
    "Builder_ctor True parent_open_buffer (Some top_builder) 8 = Inr (sub_builder, buf')"
    by (auto simp add: sub_builder_def parent_open_buffer_def written_def committed_def)
  then show "\<not> isl (Builder_ctor True parent_open_buffer (Some top_builder) 8)"
    and "fst (projr (Builder_ctor True parent_open_buffer (Some top_builder) 8)) = sub_builder"
    by simp_all
qed

text \<open>
  C7. The address of a Builder's record is computed on every use as
  \<open>data() + committed() + m_item_offset\<close>; the offset is \<open>written() - committed()\<close> as
  it was when the Builder was constructed; no Builder operation changes \<open>committed()\<close>.
  So across a \<open>reserve_space\<close> call, also one that moves the storage, the record stays
  at the same offset from the base, and the address computed afterwards resolves to the
  bytes that the address computed before resolved to.
\<close>

theorem item_pos_survives_reserve:
  "item_pos b buf = data buf + committed buf + m_item_offset b \<and>
   (Builder_ctor debug buf0 parent sz = Inr (b, buf1) \<longrightarrow>
      m_item_offset b = written buf0 - committed buf0 \<and> committed buf1 = committed buf0) \<and>
   committed (snd (reserve_space n buf)) = committed buf \<and>
   committed (add_size a delta buf) = committed buf \<and>
   (add_padding debug a self buf = Inr buf2 \<longrightarrow> committed buf2 = committed buf) \<and>
   committed (snd (do_append a call buf)) = committed buf \<and>
   committed (add_item a item buf) = committed buf \<and>
   committed (Builder_dtor debug a buf) = committed buf \<and>
   item_pos b (snd (reserve_space n buf)) - data (snd (reserve_space n buf)) =
     item_pos b buf - data buf \<and>
   (\<forall>k. item_pos b buf - data buf + k < written buf \<longrightarrow>
      byte_at (snd (reserve_space n buf)) (item_pos b (snd (reserve_space n buf)) + k) =
      byte_at buf (item_pos b buf + k))"
proof -
  let ?buf' = "snd (reserve_space n buf)"
  have ctor: "Builder_ctor debug buf0 parent sz = Inr (b, buf1) \<longrightarrow>
      m_item_offset b = written buf0 - committed buf0 \<and> committed buf1 = committed buf0"
    using Builder_ctor_Inr(1,2) [of debug buf0 parent sz b buf1] by (auto simp add: committed_def)
  have off: "item_pos b ?buf' - data ?buf' = item_pos b buf - data buf"
    by (simp add: item_pos_def data_def committed_def reserve_space_committed)
  have bytes: "\<forall>k. item_pos b buf - data buf + k < written buf \<longrightarrow>
      byte_at ?buf' (item_pos b ?buf' + k) = byte_at buf (item_pos b buf + k)"
  proof (intro allI impI)
    fix k
    assume k: "item_pos b buf - data buf + k < written buf"
    have o: "item_pos b buf - data buf = m_committed buf + m_item_offset b"
      by (simp add: item_pos_def data_def committed_def)
    have o': "item_pos b ?buf' + k - data ?buf' = m_committed buf + m_item_offset b + k"
      by (simp add: item_pos_def data_def committed_def reserve_space_committed)
    have o2: "item_pos b buf + k - data buf = m_committed buf + m_item_offset b + k"
      by (simp add: item_pos_def data_def committed_def)
    have in1: "data buf \<le> item_pos b buf + k \<and> item_pos b buf + k < data buf + written buf"
      using k o by (simp add: item_pos_def data_def committed_def)
    have in2: "data ?buf' \<le> item_pos b ?buf' + k \<and>
               item_pos b ?buf' + k < data ?buf' + written ?buf'"
      using k o
      by (simp add: item_pos_def data_def committed_def reserve_space_committed
          reserve_space_written)
    have "m_memory ?buf' ! (m_committed buf + m_item_offset b + k) =
          m_memory buf ! (m_committed buf + m_item_offset b + k)"
      using k o by (simp add: reserve_space_memory nth_append written_def)
    with in1 in2 o' o2 show
      "byte_at ?buf' (item_pos b ?buf' + k) = byte_at buf (item_pos b buf + k)"
      by (simp add: byte_at_def)
  qed
  show ?thesis
    using ctor off bytes add_padding_committed [of debug a self buf buf2]
    by (simp add: item_pos_def committed_def reserve_space_committed do_append_committed
        add_item_committed Builder_dtor_fields)
qed

theorem item_pos_survives_reserve_witness:
  "Builder_ctor True parent_open_buffer (Some top_builder) 8 =
     Inr (sub_builder, snd (projr (Builder_ctor True parent_open_buffer (Some top_builder) 8))) \<and>
   m_item_offset sub_builder = written parent_open_buffer - committed parent_open_buffer \<and>
   add_padding True sub_builder True two_level_buffer = Inr two_level_buffer \<and>
   item_pos sub_builder two_level_buffer - data two_level_buffer + 0 < written two_level_buffer \<and>
   data two_level_buffer = 4096 \<and> data (snd (reserve_space 100 two_level_buffer)) = 8192 \<and>
   item_pos sub_builder two_level_buffer = 4112 \<and>
   item_pos sub_builder (snd (reserve_space 100 two_level_buffer)) = 8208 \<and>
   byte_at two_level_buffer 4112 = Some 8 \<and>
   byte_at (snd (reserve_space 100 two_level_buffer)) 8208 = Some 8"
proof -
  let ?r = "Builder_ctor True parent_open_buffer (Some top_builder) 8"
  have c: "?r = Inr (sub_builder, snd (projr ?r))"
    using open_sub_builder by (cases ?r) auto
  have p: "add_padding True sub_builder True two_level_buffer = Inr two_level_buffer"
    by (simp add: add_padding_def two_level_sizes align_bytes_def)
  have k: "item_pos sub_builder two_level_buffer - data two_level_buffer + 0 < written two_level_buffer"
    by (simp add: item_pos_def data_def committed_def written_def two_level_buffer_def
        sub_builder_def)
  have d: "data two_level_buffer = 4096" "data (snd (reserve_space 100 two_level_buffer)) = 8192"
    by (simp_all add: data_def reserve_space_data_cases written_def two_level_buffer_def)
  have i: "item_pos sub_builder two_level_buffer = 4112"
    "item_pos sub_builder (snd (reserve_space 100 two_level_buffer)) = 8208"
    using d
    by (simp_all add: item_pos_def committed_def reserve_space_committed sub_builder_def)
      (simp_all add: two_level_buffer_def)
  have b: "byte_at two_level_buffer 4112 = Some 8"
    by (simp add: byte_at_def data_def written_def two_level_buffer_def)
  from item_pos_survives_reserve [of sub_builder two_level_buffer True parent_open_buffer
      "Some top_builder" 8 "snd (projr ?r)" 100 sub_builder 0 True two_level_buffer]
  have "byte_at (snd (reserve_space 100 two_level_buffer))
          (item_pos sub_builder (snd (reserve_space 100 two_level_buffer)) + 0) =
        byte_at two_level_buffer (item_pos sub_builder two_level_buffer + 0)"
    and "m_item_offset sub_builder = written parent_open_buffer - committed parent_open_buffer"
    using c k by blast+
  with c p k d i b show ?thesis by simp
qed

section \<open>Claims about the counter of open builders\<close>

lemma do_append_count: "m_builder_count (snd (do_append b call buf)) = m_builder_count buf"
  by (cases call) (simp_all add: append_b_count append_with_zero_count append_str_def)

lemma add_item_count: "m_builder_count (add_item b item buf) = m_builder_count buf"
  by (simp add: add_item_def buffer_add_item_count)

lemma add_padding_count:
  "add_padding debug b self buf = Inr buf' \<Longrightarrow> m_builder_count buf' = m_builder_count buf"
  by (auto simp add: add_padding_def Let_def case_prod_beta fill_n_fields reserve_space_count
      split: if_splits option.splits)

lemma step_count:
  assumes "step True a (buf, opn) = Inr (buf', opn')"
    and "builder_count buf = length opn"
  shows "builder_count buf' = length opn'"
proof (cases a)
  case (Open parent sz)
  with assms(1) obtain b where
    c: "Builder_ctor True buf parent sz = Inr (b, buf')" and o: "opn' = b # opn"
    by (auto split: if_splits sum.splits)
  from Builder_ctor_Inr(4) [OF c] o assms(2) show ?thesis by (simp add: builder_count_def)
next
  case (Close b)
  with assms(1) have "b \<in> set opn" "buf' = Builder_dtor True b buf" "opn' = remove1 b opn"
    by (auto split: if_splits)
  with assms(2) show ?thesis
    by (simp add: builder_count_def Builder_dtor_def decrement_builder_count_def length_remove1)
next
  case (Do_append b call)
  with assms show ?thesis
    by (auto simp add: builder_count_def do_append_count split: if_splits)
next
  case (Pad b self)
  with assms show ?thesis
    by (auto simp add: builder_count_def add_padding_count split: if_splits sum.splits)
next
  case (Grow b sz)
  with assms show ?thesis by (auto simp add: builder_count_def split: if_splits)
next
  case (Attach b item)
  with assms show ?thesis by (auto simp add: builder_count_def add_item_count split: if_splits)
qed

lemma run_count:
  "run True acts (buf, opn) = Inr (buf', opn') \<Longrightarrow> builder_count buf = length opn \<Longrightarrow>
   builder_count buf' = length opn'"
proof (induction acts arbitrary: buf opn)
  case Nil
  then show ?case by simp
next
  case (Cons a acts)
  from Cons.prems(1) obtain buf1 opn1 where
    s: "step True a (buf, opn) = Inr (buf1, opn1)" and
    r: "run True acts (buf1, opn1) = Inr (buf', opn')"
    by (auto split: sum.splits)
  from step_count [OF s Cons.prems(2)] Cons.IH [OF r] show ?case by simp
qed

lemma open_close_program_runs:
  "\<exists>buf'. run True open_close_program (fresh_buffer, []) = Inr (buf', [top_builder])"
proof -
  have "\<exists>buf1. Builder_ctor True fresh_buffer None 16 =
      Inr (Builder None (written fresh_buffer - committed fresh_buffer), buf1)"
    by (rule Builder_ctor_succeeds) (simp_all add: fresh_buffer_def written_def align_bytes_def)
  then obtain buf1 where 1: "Builder_ctor True fresh_buffer None 16 = Inr (top_builder, buf1)"
    by (auto simp add: top_builder_def fresh_buffer_def written_def committed_def)
  note r = Builder_ctor_Inr [OF 1]
  have w1: "written buf1 = 16" "committed buf1 = 0" "m_builder_count buf1 = 1"
    using r(2,3,4) by (simp_all add: written_def committed_def fresh_buffer_def)
  have "\<exists>buf2. Builder_ctor True buf1 (Some top_builder) 8 =
      Inr (Builder (Some top_builder) (written buf1 - committed buf1), buf2)"
    by (rule Builder_ctor_succeeds) (simp_all add: w1 align_bytes_def)
  then obtain buf2 where 2: "Builder_ctor True buf1 (Some top_builder) 8 = Inr (sub_builder, buf2)"
    by (auto simp add: sub_builder_def w1)
  have "sub_builder \<noteq> top_builder" by (simp add: sub_builder_def top_builder_def)
  with 1 2 show ?thesis by (simp add: open_close_program_def)
qed

text \<open>
  C8. In an instrumented build the constructor fails an assertion when it is given no
  parent and the counter of open builders is not 0, and when it is given a parent and
  the counter is not 1. A constructor that returns has added one to the counter and the
  destructor takes one off, so after any run of a program that started with the counter
  equal to the number of open Builders, the counter is the number of open Builders.
\<close>

theorem builder_count_discipline:
  "(builder_count buf \<noteq> 0 \<longrightarrow> isl (Builder_ctor True buf None sz)) \<and>
   (builder_count buf \<noteq> 1 \<longrightarrow> isl (Builder_ctor True buf (Some p) sz)) \<and>
   (Builder_ctor True buf parent sz = Inr (b, buf1) \<longrightarrow>
      builder_count buf1 = builder_count buf + 1) \<and>
   builder_count (Builder_dtor True b buf) = builder_count buf - 1 \<and>
   (run True acts (buf, opn) = Inr (buf', opn') \<and> builder_count buf = length opn \<longrightarrow>
      builder_count buf' = length opn')"
proof (intro conjI impI)
  assume "builder_count buf \<noteq> 0"
  then show "isl (Builder_ctor True buf None sz)"
    by (simp add: Builder_ctor_def Let_def builder_count_def reserve_space_count)
next
  assume "builder_count buf \<noteq> 1"
  then show "isl (Builder_ctor True buf (Some p) sz)"
    by (simp add: Builder_ctor_def Let_def builder_count_def reserve_space_count)
next
  assume "Builder_ctor True buf parent sz = Inr (b, buf1)"
  from Builder_ctor_Inr(4) [OF this] show "builder_count buf1 = builder_count buf + 1"
    by (simp add: builder_count_def)
next
  show "builder_count (Builder_dtor True b buf) = builder_count buf - 1"
    by (simp add: builder_count_def Builder_dtor_def decrement_builder_count_def)
next
  assume "run True acts (buf, opn) = Inr (buf', opn') \<and> builder_count buf = length opn"
  then show "builder_count buf' = length opn'" using run_count by blast
qed

theorem builder_count_discipline_witness:
  "builder_count two_level_buffer \<noteq> 0 \<and> builder_count two_level_buffer \<noteq> 1 \<and>
   isl (Builder_ctor True two_level_buffer None 16) \<and>
   isl (Builder_ctor True two_level_buffer (Some sub_builder) 8) \<and>
   builder_count fresh_buffer = length ([] :: builder list) \<and>
   run True open_close_program (fresh_buffer, []) =
     Inr (fst (projr (run True open_close_program (fresh_buffer, []))), [top_builder]) \<and>
   builder_count (fst (projr (run True open_close_program (fresh_buffer, [])))) = 1"
proof -
  let ?r = "run True open_close_program (fresh_buffer, [])"
  have c: "builder_count two_level_buffer \<noteq> 0" "builder_count two_level_buffer \<noteq> 1"
    "builder_count fresh_buffer = length ([] :: builder list)"
    by (simp_all add: builder_count_def two_level_buffer_def fresh_buffer_def)
  have r: "?r = Inr (fst (projr ?r), [top_builder])"
    using open_close_program_runs by auto
  from builder_count_discipline [of two_level_buffer 16 sub_builder] c
  have a: "isl (Builder_ctor True two_level_buffer None 16)" by blast
  from builder_count_discipline [of two_level_buffer 8 sub_builder] c
  have b: "isl (Builder_ctor True two_level_buffer (Some sub_builder) 8)" by blast
  from builder_count_discipline [of fresh_buffer _ _ _ _ _ open_close_program "[]"
      "fst (projr ?r)" "[top_builder]"] r c(3)
  have "builder_count (fst (projr ?r)) = length [top_builder]" by blast
  with a b c r show ?thesis by simp
qed

section \<open>Claims about the bytes already written\<close>

lemma chain_parent_subset: "m_parent b = Some p \<Longrightarrow> set (chain p) \<subseteq> set (chain b)"
  by (cases b) (auto simp add: chain_simps)

lemma not_in_size_field:
  assumes "\<not> in_size_field buf opn i" and "b \<in> set opn" and "a \<in> set (chain b)"
  shows "i < header_offset buf a \<or> header_offset buf a + 4 \<le> i"
proof -
  have "\<not> (header_offset buf a \<le> i \<and> i < header_offset buf a + 4)"
    using assms by (auto simp add: in_size_field_def)
  then show ?thesis by linarith
qed

lemma in_size_field_mono:
  "in_size_field buf1 opn1 i \<Longrightarrow> set opn1 \<subseteq> set opn \<Longrightarrow> m_committed buf1 = m_committed buf \<Longrightarrow>
   in_size_field buf opn i"
  by (auto simp add: in_size_field_def header_offset_def)

text \<open>
  Adding to the sizes of a chain that belongs to an open Builder, on a buffer that was
  extended at the tail, keeps every old byte outside the size fields.
\<close>

lemma add_size_frame:
  assumes "\<not> in_size_field buf opn i" and "b \<in> set opn" and "set (chain q) \<subseteq> set (chain b)"
    and "m_committed x = m_committed buf"
  shows "m_memory (add_size q sz x) ! i = m_memory x ! i"
proof (rule add_size_nth_outside)
  show "\<forall>a \<in> set (chain q). i < header_offset x a \<or> header_offset x a + 4 \<le> i"
  proof
    fix a assume "a \<in> set (chain q)"
    with assms(3) have "a \<in> set (chain b)" by blast
    from not_in_size_field [OF assms(1,2) this] assms(4)
    show "i < header_offset x a \<or> header_offset x a + 4 \<le> i"
      by (simp add: header_offset_def)
  qed
qed

lemma add_padding_Inr_cases:
  assumes "add_padding debug b self buf = Inr buf1"
  shows "buf1 = buf \<or>
         (\<exists>x n q. m_committed x = m_committed buf \<and> m_memory x = m_memory buf @ replicate n 0 \<and>
            set (chain q) \<subseteq> set (chain b) \<and> (buf1 = x \<or> buf1 = add_size q (of_nat n) x))"
proof -
  let ?n = "align_bytes - unat (size_b b buf) mod align_bytes"
  let ?x = "fill_n (fst (reserve_space ?n buf)) ?n 0 (snd (reserve_space ?n buf))"
  have x: "m_committed ?x = m_committed buf" "m_memory ?x = m_memory buf @ replicate ?n 0"
    by (simp_all add: reserve_fill_committed reserve_fill_memory)
  show ?thesis
  proof (cases "?n = align_bytes")
    case True
    with assms show ?thesis by (simp add: add_padding_def Let_def)
  next
    case False
    show ?thesis
    proof (cases self)
      case True
      with False assms have "buf1 = add_size b (of_nat ?n) ?x"
        by (simp add: add_padding_def Let_def case_prod_beta)
      with x show ?thesis by blast
    next
      case notself: False
      show ?thesis
      proof (cases "m_parent b")
        case None
        with False notself assms have "buf1 = ?x"
          by (simp add: add_padding_def Let_def case_prod_beta)
        with x show ?thesis by blast
      next
        case (Some p)
        with False notself assms have "buf1 = add_size p (of_nat ?n) ?x"
          by (simp add: add_padding_def Let_def case_prod_beta split: if_splits)
        with x chain_parent_subset [OF Some] show ?thesis by blast
      qed
    qed
  qed
qed

lemma step_frame:
  assumes s: "step debug a (buf, opn) = Inr (buf1, opn1)"
    and cw: "m_committed buf \<le> written buf"
  shows "m_committed buf1 = m_committed buf"
    and "written buf \<le> written buf1"
    and "\<forall>i < written buf. \<not> in_size_field buf opn i \<longrightarrow> m_memory buf1 ! i = m_memory buf ! i"
    and "\<forall>i < written buf. in_size_field buf1 opn1 i \<longrightarrow> in_size_field buf opn i"
    and "\<not> opens a \<Longrightarrow> set opn1 \<subseteq> set opn"
proof -
  have "m_committed buf1 = m_committed buf \<and> written buf \<le> written buf1 \<and>
    (\<forall>i < written buf. \<not> in_size_field buf opn i \<longrightarrow> m_memory buf1 ! i = m_memory buf ! i) \<and>
    (\<forall>i < written buf. in_size_field buf1 opn1 i \<longrightarrow> in_size_field buf opn i) \<and>
    (\<not> opens a \<longrightarrow> set opn1 \<subseteq> set opn)"
  proof (cases a)
    case (Open parent sz)
    with s obtain b where
      c: "Builder_ctor debug buf parent sz = Inr (b, buf1)" and o: "opn1 = b # opn"
      and par: "case parent of None \<Rightarrow> True | Some p \<Rightarrow> p \<in> set opn"
      by (auto split: if_splits sum.splits option.splits)
    note r = Builder_ctor_Inr [OF c]
    have b: "b = Builder parent (written buf - m_committed buf)"
      using r(1) by (simp add: committed_def)
    have hb: "header_offset buf1 b = written buf"
      using cw r(2) by (simp add: header_offset_def b)
    have len: "written buf1 = written buf + unat sz"
      using r(3) by (cases parent) (simp_all add: written_def add_size_fields reserve_space_memory)
    let ?res = "snd (reserve_space (unat sz) buf)"
    have mem: "\<forall>i < written buf. \<not> in_size_field buf opn i \<longrightarrow>
        m_memory buf1 ! i = m_memory buf ! i"
    proof (intro allI impI)
      fix i assume i: "i < written buf" and n: "\<not> in_size_field buf opn i"
      show "m_memory buf1 ! i = m_memory buf ! i"
      proof (cases parent)
        case None
        with r(3) i show ?thesis by (simp add: nth_append written_def)
      next
        case (Some p)
        with par have p: "p \<in> set opn" by simp
        have "m_memory (add_size p sz ?res) ! i = m_memory ?res ! i"
          using n p by (rule add_size_frame) (simp_all add: reserve_space_committed)
        with r(3) Some i show ?thesis
          by (simp add: reserve_space_memory nth_append written_def)
      qed
    qed
    have fld: "\<forall>i < written buf. in_size_field buf1 opn1 i \<longrightarrow> in_size_field buf opn i"
    proof (intro allI impI)
      fix i assume i: "i < written buf" and f: "in_size_field buf1 opn1 i"
      from f obtain c a where
        ca: "c \<in> set opn1" "a \<in> set (chain c)" "header_offset buf1 a \<le> i"
        "i < header_offset buf1 a + 4"
        by (auto simp add: in_size_field_def)
      have h: "header_offset buf1 a = header_offset buf a"
        using r(2) by (simp add: header_offset_def)
      show "in_size_field buf opn i"
      proof (cases "c \<in> set opn")
        case True
        with ca h show ?thesis by (auto simp add: in_size_field_def)
      next
        case False
        with ca(1) o have cb: "c = b" by simp
        have "a \<noteq> b" using ca(3) hb i by auto
        with ca(2) cb obtain p where p: "parent = Some p" "a \<in> set (chain p)"
          by (cases parent) (auto simp add: b chain_simps)
        with par have "p \<in> set opn" by simp
        with p ca h show ?thesis by (auto simp add: in_size_field_def)
      qed
    qed
    from r(2) len mem fld Open show ?thesis by simp
  next
    case (Close b)
    with s have e: "buf1 = Builder_dtor debug b buf" "opn1 = remove1 b opn"
      by (auto split: if_splits)
    then have sub: "set opn1 \<subseteq> set opn" by (simp add: set_remove1_subset)
    have c1: "m_committed buf1 = m_committed buf" by (simp add: e Builder_dtor_fields)
    have "\<forall>i < written buf. in_size_field buf1 opn1 i \<longrightarrow> in_size_field buf opn i"
      using in_size_field_mono [OF _ sub c1] by blast
    with sub Close show ?thesis by (simp add: e Builder_dtor_fields written_def)
  next
    case (Do_append b call)
    with s have e: "buf1 = snd (do_append b call buf)" "opn1 = opn"
      by (auto split: if_splits)
    from do_append_extends [of b call buf] e obtain new where
      x: "m_committed buf1 = m_committed buf" "m_memory buf1 = m_memory buf @ new" by auto
    have "\<forall>i < written buf. in_size_field buf1 opn1 i \<longrightarrow> in_size_field buf opn i"
      using in_size_field_mono [OF _ _ x(1), of opn1 _ opn] e by blast
    with x e Do_append show ?thesis by (simp add: written_def nth_append)
  next
    case (Pad b self)
    with s have bo: "b \<in> set opn" and e: "add_padding debug b self buf = Inr buf1" "opn1 = opn"
      by (auto split: if_splits sum.splits)
    from add_padding_committed [OF e(1)] have c1: "m_committed buf1 = m_committed buf" .
    have fld: "\<forall>i < written buf. in_size_field buf1 opn1 i \<longrightarrow> in_size_field buf opn i"
      using in_size_field_mono [OF _ _ c1, of opn1 _ opn] e by blast
    from add_padding_Inr_cases [OF e(1)]
    have "written buf \<le> written buf1 \<and>
      (\<forall>i < written buf. \<not> in_size_field buf opn i \<longrightarrow> m_memory buf1 ! i = m_memory buf ! i)"
    proof (elim disjE exE conjE)
      assume "buf1 = buf"
      then show ?thesis by simp
    next
      fix x n q
      assume x: "m_committed x = m_committed buf" "m_memory x = m_memory buf @ replicate n 0"
        and "buf1 = x"
      then show ?thesis by (simp add: written_def nth_append)
    next
      fix x n q
      assume x: "m_committed x = m_committed buf" "m_memory x = m_memory buf @ replicate n 0"
        and q: "set (chain q) \<subseteq> set (chain b)" and b1: "buf1 = add_size q (word_of_nat n) x"
      have "\<forall>i < written buf. \<not> in_size_field buf opn i \<longrightarrow>
          m_memory buf1 ! i = m_memory buf ! i"
      proof (intro allI impI)
        fix i assume i: "i < written buf" and n: "\<not> in_size_field buf opn i"
        from add_size_frame [OF n bo q x(1)] have "m_memory buf1 ! i = m_memory x ! i"
          by (simp add: b1)
        with x(2) i show "m_memory buf1 ! i = m_memory buf ! i"
          by (simp add: nth_append written_def)
      qed
      moreover have "written buf \<le> written buf1"
        using x(2) by (simp add: b1 written_def add_size_fields)
      ultimately show ?thesis by simp
    qed
    with c1 fld e Pad show ?thesis by simp
  next
    case (Grow b sz)
    with s have bo: "b \<in> set opn" and e: "buf1 = add_size b sz buf" "opn1 = opn"
      by (auto split: if_splits)
    have "\<forall>i < written buf. \<not> in_size_field buf opn i \<longrightarrow> m_memory buf1 ! i = m_memory buf ! i"
      using add_size_frame [OF _ bo subset_refl refl] by (simp add: e)
    moreover have "\<forall>i < written buf. in_size_field buf1 opn1 i \<longrightarrow> in_size_field buf opn i"
      using in_size_field_mono [of buf1 opn1 _ opn buf] e by simp
    ultimately show ?thesis using e Grow by simp
  next
    case (Attach b item)
    with s have bo: "b \<in> set opn" and e: "buf1 = add_item b item buf" "opn1 = opn"
      by (auto split: if_splits)
    let ?x = "buffer_add_item item buf"
    have x: "m_committed ?x = m_committed buf"
      "m_memory ?x = m_memory buf @ take (unat (padded_size item)) item @
         drop (length item) (fresh_storage (unat (padded_size item)) buf)"
      by (simp_all add: buffer_add_item_committed buffer_add_item_memory)
    have c1: "m_committed buf1 = m_committed buf" by (simp add: e add_item_committed)
    have "\<forall>i < written buf. \<not> in_size_field buf opn i \<longrightarrow> m_memory buf1 ! i = m_memory buf ! i"
    proof (intro allI impI)
      fix i assume i: "i < written buf" and n: "\<not> in_size_field buf opn i"
      from add_size_frame [OF n bo subset_refl x(1)] have "m_memory buf1 ! i = m_memory ?x ! i"
        by (simp add: e add_item_def)
      with x(2) i show "m_memory buf1 ! i = m_memory buf ! i"
        by (simp add: nth_append written_def)
    qed
    moreover have "\<forall>i < written buf. in_size_field buf1 opn1 i \<longrightarrow> in_size_field buf opn i"
      using in_size_field_mono [OF _ _ c1, of opn1 _ opn] e by blast
    moreover have "written buf \<le> written buf1"
      using x(2) by (simp add: e add_item_def written_def add_size_fields)
    ultimately show ?thesis using c1 e Attach by simp
  qed
  then show "m_committed buf1 = m_committed buf"
    and "written buf \<le> written buf1"
    and "\<forall>i < written buf. \<not> in_size_field buf opn i \<longrightarrow> m_memory buf1 ! i = m_memory buf ! i"
    and "\<forall>i < written buf. in_size_field buf1 opn1 i \<longrightarrow> in_size_field buf opn i"
    and "\<not> opens a \<Longrightarrow> set opn1 \<subseteq> set opn"
    by blast+
qed

lemma run_frame:
  "run debug acts (buf, opn) = Inr (buf', opn') \<Longrightarrow> m_committed buf \<le> written buf \<Longrightarrow>
   written buf \<le> written buf' \<and>
   (\<forall>i < written buf. \<not> in_size_field buf opn i \<longrightarrow> m_memory buf' ! i = m_memory buf ! i)"
proof (induction acts arbitrary: buf opn)
  case Nil
  then show ?case by simp
next
  case (Cons a acts)
  from Cons.prems(1) obtain buf1 opn1 where
    s: "step debug a (buf, opn) = Inr (buf1, opn1)" and
    r: "run debug acts (buf1, opn1) = Inr (buf', opn')"
    by (auto split: sum.splits)
  note f = step_frame [OF s Cons.prems(2)]
  have cw1: "m_committed buf1 \<le> written buf1" using f(1,2) Cons.prems(2) by simp
  note ih = Cons.IH [OF r cw1]
  show ?case
  proof (intro conjI allI impI)
    show "written buf \<le> written buf'" using f(2) ih by simp
  next
    fix i assume i: "i < written buf" and n: "\<not> in_size_field buf opn i"
    then have "\<not> in_size_field buf1 opn1 i" using f(4) by blast
    moreover have "i < written buf1" using i f(2) by simp
    ultimately have "m_memory buf' ! i = m_memory buf1 ! i" using ih by blast
    with f(3) i n show "m_memory buf' ! i = m_memory buf ! i" by simp
  qed
qed

lemma appended_bytes_stay:
  assumes s: "step debug a (buf, opn) = Inr (buf1, opn1)" and no: "\<not> opens a"
    and r: "run debug rest (buf1, opn1) = Inr (buf', opn')"
    and cw: "m_committed buf \<le> written buf" and hw: "headers_written buf opn"
    and i: "written buf \<le> i" "i < written buf1"
  shows "m_memory buf' ! i = m_memory buf1 ! i"
proof -
  note f = step_frame [OF s cw]
  have cw1: "m_committed buf1 \<le> written buf1" using f(1,2) cw by simp
  have "\<not> in_size_field buf1 opn1 i"
  proof
    assume "in_size_field buf1 opn1 i"
    then obtain b x where bx: "b \<in> set opn1" "x \<in> set (chain b)"
      "i < header_offset buf1 x + 4"
      by (auto simp add: in_size_field_def)
    from bx(1) f(5) [OF no] have "b \<in> set opn" by blast
    with bx(2) hw have "header_offset buf x + 4 \<le> written buf"
      by (simp add: headers_written_def)
    moreover have "header_offset buf1 x = header_offset buf x"
      using f(1) by (simp add: header_offset_def)
    ultimately show False using i(1) bx(3) by simp
  qed
  with run_frame [OF r cw1] i(2) show ?thesis by blast
qed

lemma two_level_headers_written:
  "headers_written two_level_buffer [sub_builder, top_builder]"
  "\<not> in_size_field two_level_buffer [sub_builder, top_builder] 4"
  by (simp_all add: headers_written_def in_size_field_def chain_def sub_builder_def
      top_builder_def header_offset_def written_def two_level_buffer_def)

text \<open>
  C9. Whatever operations a program runs on the open Builders (constructing and
  destroying Builders, the append functions, \<open>add_padding\<close>, \<open>add_size\<close>,
  \<open>add_item\<close>), a byte written before the run keeps its value unless it lies in the size
  field of a Builder that was open then (or of an ancestor of one), and the written
  offset only grows: everything new goes to the tail. The bytes an operation other than
  a constructor puts at the tail stay as they are, where they are, to the end of the
  run, so the content of the record is in the order of the calls.
\<close>

theorem written_bytes_are_kept:
  "(run debug acts (buf, opn) = Inr (buf', opn') \<and> m_committed buf \<le> written buf \<longrightarrow>
      written buf \<le> written buf' \<and>
      (\<forall>i < written buf. \<not> in_size_field buf opn i \<longrightarrow> m_memory buf' ! i = m_memory buf ! i)) \<and>
   (step debug a (buf, opn) = Inr (buf1, opn1) \<and> \<not> opens a \<and>
    run debug rest (buf1, opn1) = Inr (buf2, opn2) \<and>
    m_committed buf \<le> written buf \<and> headers_written buf opn \<longrightarrow>
      (\<forall>i. written buf \<le> i \<and> i < written buf1 \<longrightarrow> m_memory buf2 ! i = m_memory buf1 ! i))"
  using run_frame [of debug acts buf opn buf' opn']
    appended_bytes_stay [of debug a buf opn buf1 opn1 rest buf2 opn2]
  by blast

theorem written_bytes_are_kept_witness:
  "run True append_program (two_level_buffer, [sub_builder, top_builder]) =
     Inr (add_item sub_builder finished_item
            (add_size sub_builder 3 (snd (append_b sub_builder [1, 2, 3] 3 two_level_buffer))),
          [sub_builder, top_builder]) \<and>
   m_committed two_level_buffer \<le> written two_level_buffer \<and>
   headers_written two_level_buffer [sub_builder, top_builder] \<and>
   4 < written two_level_buffer \<and>
   \<not> in_size_field two_level_buffer [sub_builder, top_builder] 4 \<and>
   m_memory (add_item sub_builder finished_item
       (add_size sub_builder 3 (snd (append_b sub_builder [1, 2, 3] 3 two_level_buffer)))) ! 4 =
     m_memory two_level_buffer ! 4 \<and>
   \<not> opens (Do_append sub_builder (Append [1, 2, 3] 3)) \<and>
   written two_level_buffer \<le> 25 \<and>
   25 < written (snd (append_b sub_builder [1, 2, 3] 3 two_level_buffer)) \<and>
   m_memory (add_item sub_builder finished_item
       (add_size sub_builder 3 (snd (append_b sub_builder [1, 2, 3] 3 two_level_buffer)))) ! 25 = 2"
proof -
  let ?buf1 = "snd (append_b sub_builder [1, 2, 3] 3 two_level_buffer)"
  let ?buf2 = "add_item sub_builder finished_item (add_size sub_builder 3 ?buf1)"
  let ?opn = "[sub_builder, top_builder]"
  let ?rest = "[Grow sub_builder 3, Attach sub_builder finished_item]"
  have s: "step True (Do_append sub_builder (Append [1, 2, 3] 3)) (two_level_buffer, ?opn) =
           Inr (?buf1, ?opn)" by simp
  have r: "run True ?rest (?buf1, ?opn) = Inr (?buf2, ?opn)" by simp
  have p: "run True append_program (two_level_buffer, ?opn) = Inr (?buf2, ?opn)"
    by (simp add: append_program_def)
  have w: "written two_level_buffer = 24" "m_committed two_level_buffer = 0"
    by (simp_all add: written_def two_level_buffer_def)
  have m1: "m_memory ?buf1 = m_memory two_level_buffer @ [1, 2, 3]"
    by (simp add: append_b_memory)
  then have w1: "written ?buf1 = 27" using w by (simp add: written_def)
  have b: "m_memory ?buf1 ! 25 = 2" using m1 w by (simp add: nth_append written_def)
  from written_bytes_are_kept [of True append_program two_level_buffer ?opn ?buf2 ?opn
      "Do_append sub_builder (Append [1, 2, 3] 3)" ?buf1 ?opn ?rest ?buf2 ?opn]
    s r p w w1 two_level_headers_written
  have "m_memory ?buf2 ! 4 = m_memory two_level_buffer ! 4"
    and "m_memory ?buf2 ! 25 = m_memory ?buf1 ! 25"
    by simp_all
  with p w w1 b two_level_headers_written show ?thesis by simp
qed

section \<open>Claims about \<open>build_conninfo\<close>\<close>

lemma take_c_str:
  assumes "CHR 0x00 \<notin> set pre"
  shows "(take (length pre) (c_str s) = pre) = (take (length pre) s = pre)"
proof
  assume a: "take (length pre) (c_str s) = pre"
  obtain m where m: "c_str s = take m s" "m = length (c_str s)"
    unfolding c_str_def using takeWhile_eq_take by blast
  have "length (take (length pre) (c_str s)) = length pre" using a by simp
  then have "length pre \<le> m" using m(2) by simp
  then have "take (length pre) (take m s) = take (length pre) s" by (simp add: min_def)
  with a m(1) show "take (length pre) s = pre" by simp
next
  assume a: "take (length pre) s = pre"
  have "takeWhile (\<lambda>c. c \<noteq> CHR 0x00) (pre @ drop (length pre) s) =
        pre @ takeWhile (\<lambda>c. c \<noteq> CHR 0x00) (drop (length pre) s)"
    by (rule takeWhile_append2) (use assms in auto)
  moreover have "pre @ drop (length pre) s = s"
    using a append_take_drop_id [of "length pre" s] by simp
  ultimately have "c_str s = pre @ c_str (drop (length pre) s)"
    by (simp add: c_str_def)
  then show "take (length pre) (c_str s) = pre" by simp
qed

lemma c_str_no_nul: "CHR 0x00 \<notin> set s \<Longrightarrow> c_str s = s"
  by (auto simp add: c_str_def)

lemma compare_prefix_take:
  "CHR 0x00 \<notin> set pre \<Longrightarrow> compare_prefix s pre = (take (length pre) s = pre)"
  using take_c_str [of pre s] by (simp add: compare_prefix_def strncmp_is_0_def c_str_no_nul)

lemma compare_prefix_uri:
  "compare_prefix s ''postgresql://'' = (take 13 s = ''postgresql://'')"
  "compare_prefix s ''postgres://'' = (take 11 s = ''postgres://'')"
proof -
  have l: "length ''postgresql://'' = 13" "length ''postgres://'' = 11" by simp_all
  have n: "CHR 0x00 \<notin> set ''postgresql://''" "CHR 0x00 \<notin> set ''postgres://''" by simp_all
  show "compare_prefix s ''postgresql://'' = (take 13 s = ''postgresql://'')"
    using compare_prefix_take [OF n(1), of s] unfolding l .
  show "compare_prefix s ''postgres://'' = (take 11 s = ''postgres://'')"
    using compare_prefix_take [OF n(2), of s] unfolding l .
qed

lemma joiner_result_add:
  "joiner_result (joiner_add CHR '' '' item m_result) = m_result @ item"
  by (simp add: joiner_result_def joiner_add_def butlast_append)


text \<open>What the joiner holds after some additions, and what its call operator returns.\<close>

lemma joiner_add_items:
  "joiner_add CHR '' '' x (concat (map (\<lambda>y. y @ '' '') xs)) =
   concat (map (\<lambda>y. y @ '' '') (xs @ [x]))"
  by (simp add: joiner_add_def)

lemma joiner_add_if:
  "(if c then joiner_add CHR '' '' x (concat (map (\<lambda>y. y @ '' '') xs))
    else concat (map (\<lambda>y. y @ '' '') xs)) =
   concat (map (\<lambda>y. y @ '' '') (xs @ (if c then [x] else [])))"
  by (simp add: joiner_add_def)

lemma joiner_result_items:
  "joiner_result (concat (map (\<lambda>y. y @ '' '') xs)) = space_join xs"
  by (induction xs rule: space_join.induct) (simp_all add: joiner_result_def butlast_append)

lemma map_filter_Cons:
  "map f (filter P (x # xs)) = (if P x then [f x] else []) @ map f (filter P xs)"
  by simp

lemma build_conninfo_keywords:
  "joiner_result
     (let joiner = joiner_add CHR '' '' client_encoding
                     (joiner_add CHR '' '' fallback_application_name []);
          joiner = (if db opt \<noteq> [] then
                      joiner_add CHR '' '' (format_entry ''dbname'' (db opt)) joiner
                    else joiner);
          joiner = (if username opt \<noteq> [] then
                      joiner_add CHR '' '' (format_entry ''user'' (username opt)) joiner
                    else joiner);
          joiner = (if password opt \<noteq> [] then
                      joiner_add CHR '' '' (format_entry ''password'' (password opt)) joiner
                    else joiner);
          joiner = (if host opt \<noteq> [] then
                      joiner_add CHR '' '' (format_entry ''host'' (host opt)) joiner
                    else joiner);
          joiner = (if port opt \<noteq> [] then
                      joiner_add CHR '' '' (format_entry ''port'' (port opt)) joiner
                    else joiner)
      in joiner) =
   space_join
     ([fallback_application_name, client_encoding] @
      map (\<lambda>(key, v). format_entry key v)
        (filter (\<lambda>(key, v). v \<noteq> []) (conninfo_entries opt)))"
proof -
  have e: "joiner_add CHR '' '' client_encoding
             (joiner_add CHR '' '' fallback_application_name []) =
           concat (map (\<lambda>y. y @ '' '') [fallback_application_name, client_encoding])"
    by (simp add: joiner_add_def)
  show ?thesis
    unfolding Let_def e joiner_add_if joiner_result_items conninfo_entries_def map_filter_Cons
    by (simp only: append_assoc prod.case filter.simps list.map append_Nil2)
qed

lemma build_conninfo_c_string:
  "build_conninfo opt = conninfo_described (\<lambda>s. CHR ''='' \<in> set (c_str s)) opt"
proof -
  have k: "joiner_result (joiner_add CHR '' '' (db opt)
             (joiner_add CHR '' '' fallback_application_name [])) =
           fallback_application_name @ '' '' @ db opt"
    by (simp add: joiner_result_def joiner_add_def butlast_append)
  show ?thesis
    unfolding build_conninfo_def conninfo_described_def compare_prefix_uri strchr_found_def
    using k build_conninfo_keywords [of opt]
    by (simp only: Let_def)
qed

text \<open>
  C10. \<open>build_conninfo\<close> returns the database string unchanged when it begins with
  \<open>postgresql://\<close> or \<open>postgres://\<close>; otherwise, when the database string contains
  \<open>=\<close>, the fallback application name, a space and the database string; otherwise
  the fallback application name, the client encoding and the entries for dbname, user,
  password, host and port whose fields are not empty, in that order, joined by spaces.
  The database string is a C string: the option parser assigns it from \<open>optarg\<close>, and
  \<open>build_conninfo\<close> tests it with \<open>strncmp\<close> and \<open>strchr\<close> on \<open>c_str()\<close>. For every
  options value the result is the described one with "contains \<open>=\<close>" read on the C
  string, and for a database string without NUL that is the string itself.
\<close>

theorem build_conninfo_as_described:
  "build_conninfo opt = conninfo_described (\<lambda>s. CHR ''='' \<in> set (c_str s)) opt \<and>
   (CHR 0x00 \<notin> set (db opt) \<longrightarrow>
      build_conninfo opt = conninfo_described (\<lambda>s. CHR ''='' \<in> set s) opt)"
proof (intro conjI impI)
  show "build_conninfo opt = conninfo_described (\<lambda>s. CHR ''='' \<in> set (c_str s)) opt"
    by (rule build_conninfo_c_string)
next
  assume "CHR 0x00 \<notin> set (db opt)"
  then have "c_str (db opt) = db opt" by (rule c_str_no_nul)
  then have "conninfo_described (\<lambda>s. CHR ''='' \<in> set (c_str s)) opt =
             conninfo_described (\<lambda>s. CHR ''='' \<in> set s) opt"
    by (simp add: conninfo_described_def)
  then show "build_conninfo opt = conninfo_described (\<lambda>s. CHR ''='' \<in> set s) opt"
    by (simp add: build_conninfo_c_string)
qed

theorem build_conninfo_as_described_witness:
  "CHR 0x00 \<notin> set (db uri_options) \<and> CHR 0x00 \<notin> set (db keyword_options) \<and>
   CHR 0x00 \<notin> set (db plain_options) \<and>
   build_conninfo uri_options = ''postgres://h/osm'' \<and>
   build_conninfo keyword_options = fallback_application_name @ '' dbname=osm'' \<and>
   build_conninfo plain_options =
     fallback_application_name @ '' '' @ client_encoding @ '' '' @
     format_entry ''dbname'' ''osm'' @ '' '' @ format_entry ''user'' ''u'' @ '' '' @
     format_entry ''port'' ''5432''"
proof -
  have n: "CHR 0x00 \<notin> set (db uri_options)" "CHR 0x00 \<notin> set (db keyword_options)"
    "CHR 0x00 \<notin> set (db plain_options)"
    by (simp_all add: uri_options_def keyword_options_def plain_options_def)
  from build_conninfo_as_described [of uri_options] n(1)
  have u: "build_conninfo uri_options = conninfo_described (\<lambda>s. CHR ''='' \<in> set s) uri_options"
    by blast
  from build_conninfo_as_described [of keyword_options] n(2)
  have k: "build_conninfo keyword_options =
           conninfo_described (\<lambda>s. CHR ''='' \<in> set s) keyword_options"
    by blast
  from build_conninfo_as_described [of plain_options] n(3)
  have p: "build_conninfo plain_options =
           conninfo_described (\<lambda>s. CHR ''='' \<in> set s) plain_options"
    by blast
  show ?thesis
    unfolding u k p using n
    by (simp add: conninfo_described_def conninfo_entries_def uri_options_def
        keyword_options_def plain_options_def)
qed

end
